theory Spec2Isabelle
  imports Complex_Main "HOL-Library.Log_Nat"
begin

section \<open>Data model\<close>

text \<open>
  The analytics engine of SolanaLens (\<^verbatim>\<open>src/analytics\<close>) and the parts of the
  Solana client (\<^verbatim>\<open>src/solana/client.ts\<close>, \<^verbatim>\<open>src/solana/programs.ts\<close>) it reads.

  Conventions of the embedding:
  \<^item> a JavaScript \<^verbatim>\<open>number\<close> that the client produces as a count (an array length, a
    counter incremented from 0) is a \<open>nat\<close>, taken to be below \<open>2 ^ 53\<close>, where doubles
    hold integers exactly; every other number (the TPS figure, rates, averages, shares,
    the baseline) is a \<open>real\<close>. The shares of the ranking function are computed with the
    rounding of IEEE doubles (\<open>roundDouble\<close> below), since the sum of the shares is read
    up to that rounding; in the aggregator, the baseline and the TPS ratio \<^verbatim>\<open>/\<close> and \<^verbatim>\<open>*\<close>
    are exact. \<^verbatim>\<open>NaN\<close> and the infinities are outside the model;
  \<^item> a \<^verbatim>\<open>Map<string, number>\<close> is an association list in insertion order, which is the
    order \<^verbatim>\<open>keys()\<close>, \<^verbatim>\<open>values()\<close> and \<^verbatim>\<open>entries()\<close> iterate in; a \<^verbatim>\<open>Map\<close> holds each
    key once, which is \<open>distinct (map fst m)\<close>;
  \<^item> a \<^verbatim>\<open>Set<string>\<close> that is only added to and queried is a \<open>string set\<close>;
  \<^item> \<^verbatim>\<open>Date.now()\<close> is an input: the clock reading in milliseconds.
\<close>

type_synonym program_counts = "(string \<times> nat) list"

record EpochInfo =
  epoch :: nat
  slotIndex :: nat
  slotsInEpoch :: nat
  absoluteSlot :: nat
  transactionCount :: "nat option"

record NetworkStats =
  currentSlot :: nat
  blockHeight :: nat
  epochInfo :: EpochInfo
  tps :: real
  validatorCount :: nat

record BlockProduction =
  slot :: nat
  leader :: string
  numTransactions :: nat
  numSuccessful :: nat
  numFailed :: nat
  blockTime :: "nat option"

record ProgramRanking =
  programId :: string
  label :: string
  category :: string
  invocationCount :: nat
  share :: real

record BlockSummary =
  blocksAnalyzed :: nat
  totalTransactions :: nat
  successRate :: real
  avgTxPerBlock :: real
  avgFeePerTx :: real

datatype AnomalyType =
  high_failure_rate | tps_spike | tps_drop | program_surge
  | large_block | empty_block | new_program_detected

datatype Severity = Low | Medium | High

text \<open>
  The \<^verbatim>\<open>message\<close> of an anomaly is a template string over the values that triggered it;
  the model keeps the template (the constructor) and the interpolated values, and leaves
  the rendering of numbers (\<^verbatim>\<open>toFixed\<close>) out. The \<^verbatim>\<open>data\<close> payload is one object
  literal per rule; each constructor lists the literal's fields in the source's order.
\<close>

datatype Message =
  MsgHighFailureRate real
  | MsgTpsSpike real real real
  | MsgTpsDrop real real real
  | MsgLargeBlock real
  | MsgEmptyBlock real
  | MsgNewProgram string
  | MsgProgramSurge string nat nat

datatype AnomalyData =
  FailureData real nat
  | TpsData real real real
  | BlockData real
  | NewProgramData string "nat option"
  | SurgeData string nat nat

record Anomaly =
  atype :: AnomalyType
  severity :: Severity
  message :: Message
  data :: AnomalyData
  atimestamp :: nat

record HistoricalDataPoint =
  htimestamp :: nat
  htps :: real
  txCount :: nat
  hsuccessRate :: real
  programCounts :: program_counts

record NetworkSnapshot =
  timestamp :: nat
  stats :: NetworkStats
  topPrograms :: "ProgramRanking list"
  blockSummary :: BlockSummary
  anomalies :: "Anomaly list"

text \<open>
  The engine's fields. \<^verbatim>\<open>client\<close> is the data source, whose answers are inputs of
  \<open>takeSnapshot\<close> below; \<^verbatim>\<open>maxHistoryLength\<close> is initialised to 100 and never assigned.
\<close>

record AnalyticsEngine =
  history :: "HistoricalDataPoint list"
  knownPrograms :: "string set"
  baselineTps :: "real option"

definition maxHistoryLength :: nat where
  "maxHistoryLength = 100"

definition newEngine :: AnalyticsEngine where
  "newEngine = \<lparr>history = [], knownPrograms = {}, baselineTps = None\<rparr>"

section \<open>The records of the client\<close>

text \<open>
  \<^verbatim>\<open>getRecentBlockProduction\<close> builds each record from a fetched block: the number of
  transactions is the length of the block's transaction array, the number of failed ones
  counts those whose \<^verbatim>\<open>meta.err\<close> is not null, and the successful ones are the rest.
  A fetched block is given here by its slot, its block time and, per transaction, whether
  it failed.
\<close>

definition mkBlockProduction :: "nat \<Rightarrow> nat option \<Rightarrow> bool list \<Rightarrow> BlockProduction" where
  "mkBlockProduction targetSlot btime failed =
     (let numTx = length failed;
          nFailed = length (filter (\<lambda>err. err) failed)
      in \<lparr>slot = targetSlot, leader = [], numTransactions = numTx,
          numSuccessful = numTx - nFailed, numFailed = nFailed, blockTime = btime\<rparr>)"

text \<open>
  \<^verbatim>\<open>Map.prototype.set\<close>: the value of a key that is present is replaced in place, a new
  key is added at the end.
\<close>

fun mapSet :: "program_counts \<Rightarrow> string \<Rightarrow> nat \<Rightarrow> program_counts" where
  "mapSet [] k v = [(k, v)]"
| "mapSet ((k', v') # rest) k v =
     (if k' = k then (k, v) # rest else (k', v') # mapSet rest k v)"

text \<open>
  \<^verbatim>\<open>getTopProgramsFromRecentBlocks\<close> starts from an empty map and, for every instruction
  of every transaction of every fetched block, runs
  \<^verbatim>\<open>programCounts.set(programId, (programCounts.get(programId) ?? 0) + 1)\<close>.
  The fetched instructions are given here by their program identifiers, in the order the
  loops visit them.
\<close>

definition countInstruction :: "program_counts \<Rightarrow> string \<Rightarrow> program_counts" where
  "countInstruction m pid =
     mapSet m pid ((case map_of m pid of None \<Rightarrow> 0 | Some n \<Rightarrow> n) + 1)"

definition countInstructions :: "string list \<Rightarrow> program_counts" where
  "countInstructions pids = foldl countInstruction [] pids"

section \<open>Snapshot aggregator\<close>

definition summarizeBlocks :: "BlockProduction list \<Rightarrow> BlockSummary" where
  "summarizeBlocks blocks =
     (if length blocks = 0 then
        \<lparr>blocksAnalyzed = 0, totalTransactions = 0, successRate = 0,
         avgTxPerBlock = 0, avgFeePerTx = 0\<rparr>
      else
        (let totalTx = foldl (\<lambda>sum b. sum + numTransactions b) 0 blocks;
             totalSuccess = foldl (\<lambda>sum b. sum + numSuccessful b) 0 blocks
         in \<lparr>blocksAnalyzed = length blocks,
             totalTransactions = totalTx,
             successRate = (if totalTx > 0 then (real totalSuccess / real totalTx) * 100 else 0),
             avgTxPerBlock = real totalTx / real (length blocks),
             avgFeePerTx = 0\<rparr>))"

section \<open>Label directory\<close>

definition KNOWN_PROGRAMS :: "(string \<times> string) list" where
  "KNOWN_PROGRAMS =
    [(''11111111111111111111111111111111'', ''System Program''),
     (''TokenkegQfeZyiNwAJbNbGKPFXCWuBvf9Ss623VQ5DA'', ''Token Program''),
     (''TokenzQdBNbLqP5VEhdkAS6EPFLC1PHnBqCXEpPxuEb'', ''Token-2022''),
     (''ATokenGPvbdGVxr1b2hvZbsiqW5xWH25efTNsLJA8knL'', ''Associated Token Account''),
     (''ComputeBudget111111111111111111111111111111'', ''Compute Budget''),
     (''Vote111111111111111111111111111111111111111'', ''Vote Program''),
     (''Stake11111111111111111111111111111111111111'', ''Stake Program''),
     (''Config1111111111111111111111111111111111111'', ''Config Program''),
     (''BPFLoaderUpgradeab1e11111111111111111111111'', ''BPF Loader Upgradeable''),
     (''BPFLoader2111111111111111111111111111111111'', ''BPF Loader''),
     (''BPFLoader1111111111111111111111111111111111'', ''BPF Loader (Deprecated)''),
     (''SysvarC1ock11111111111111111111111111111111'', ''Sysvar Clock''),
     (''SysvarRent111111111111111111111111111111111'', ''Sysvar Rent''),
     (''SysvarS1otHashes111111111111111111111111111'', ''Sysvar Slot Hashes''),
     (''MemoSq4gqABAXKb96qnH8TysNcWxMyWCqXgDLGmfcHr'', ''Memo Program v2''),
     (''Memo1UhkJBfCR6MNBAxoGRGWfLs68tk5sJHCFiy553J'', ''Memo Program v1''),
     (''JUP6LkbZbjS1jKKwapdHNy74zcZ3tLUZoi5QNyVTaV4'', ''Jupiter v6''),
     (''whirLbMiicVdio4qvUfM5KAg6Ct8VwpYzGff3uctyCc'', ''Orca Whirlpools''),
     (''675kPX9MHTjS2zt1qfr1NYHuzeLXfQM9H24wFSUt1Mp8'', ''Raydium AMM''),
     (''CAMMCzo5YL8w4VFF8KVHrK22GGUsp5VTaW7grrKgrWqK'', ''Raydium CLMM''),
     (''9xQeWvG816bUx9EPjHmaT23yvVM2ZWbrrpZb9PusVFin'', ''Serum DEX v3''),
     (''srmqPvymJeFKQ4zGQed1GFppgkRHL9kaELCbyksJtPX'', ''Serum DEX v4''),
     (''metaqbxxUerdq28cj1RbAWkYQm3ybzjb6a8bt518x1s'', ''Metaplex Token Metadata''),
     (''cndy3Z4yapfJBmearMhi7hipHMbSy6vrQFsFYD4KZm'', ''Candy Machine v2''),
     (''Guard1JwRhJkVH6XZhzoYxeBVQe872VH6QggF4BWmS9g'', ''Candy Guard''),
     (''MFv2hWf31Z9kbCa1snEPYctwafyhdvnV7FZnsebVacA'', ''Marinade Finance''),
     (''So1endDq2YkqhipRh3WViPa8hFb7w2oSTY1BoqEG4xB'', ''Solend (Deprecated)''),
     (''jCebN34bUfdeUYJT13J1yG16XWQpt5PDx6Mse9GUqhR'', ''Jito Staking''),
     (''DjVE6JNiYqPL2QXyCUUh8rNjHrbz9hXHNYt99MQ59qw1'', ''Orca Token Swap''),
     (''namesLPneVptA9Z5rqUDD9tMTWEJwofgaYwp8cawRkX'', ''Name Service''),
     (''noopb9bkMVfRPU8AsBRBV8cn9CG5qawRUMkdJVsB8TQ'', ''SPL Noop''),
     (''auth9SigNpDKz4sJJ1DfCTuZrZNSAgh9sFD3rboVmgg'', ''SPL Auth Rules'')]"

definition shortenAddress :: "string \<Rightarrow> string" where
  "shortenAddress address =
     (if length address \<le> 11 then address
      else take 4 address @ ''...'' @ drop (length address - 4) address)"

text \<open>\<^verbatim>\<open>KNOWN_PROGRAMS[programId] || shortenAddress(programId)\<close>: an empty label is falsy.\<close>

definition getProgramLabel :: "string \<Rightarrow> string" where
  "getProgramLabel pid =
     (case map_of KNOWN_PROGRAMS pid of
        Some l \<Rightarrow> if l \<noteq> [] then l else shortenAddress pid
      | None \<Rightarrow> shortenAddress pid)"

definition PROGRAM_CATEGORIES :: "(string \<times> string list) list" where
  "PROGRAM_CATEGORIES =
    [(''Core'',
        [''11111111111111111111111111111111'',
         ''ComputeBudget111111111111111111111111111111'',
         ''Vote111111111111111111111111111111111111111'',
         ''Stake11111111111111111111111111111111111111'']),
     (''Token'',
        [''TokenkegQfeZyiNwAJbNbGKPFXCWuBvf9Ss623VQ5DA'',
         ''TokenzQdBNbLqP5VEhdkAS6EPFLC1PHnBqCXEpPxuEb'',
         ''ATokenGPvbdGVxr1b2hvZbsiqW5xWH25efTNsLJA8knL'']),
     (''DEX'',
        [''JUP6LkbZbjS1jKKwapdHNy74zcZ3tLUZoi5QNyVTaV4'',
         ''whirLbMiicVdio4qvUfM5KAg6Ct8VwpYzGff3uctyCc'',
         ''675kPX9MHTjS2zt1qfr1NYHuzeLXfQM9H24wFSUt1Mp8'',
         ''CAMMCzo5YL8w4VFF8KVHrK22GGUsp5VTaW7grrKgrWqK'']),
     (''NFT'',
        [''metaqbxxUerdq28cj1RbAWkYQm3ybzjb6a8bt518x1s'',
         ''cndy3Z4yapfJBmearMhi7hipHMbSy6vrQFsFYD4KZm'']),
     (''DeFi'',
        [''MFv2hWf31Z9kbCa1snEPYctwafyhdvnV7FZnsebVacA'',
         ''So1endDq2YkqhipRh3WViPa8hFb7w2oSTY1BoqEG4xB'',
         ''jCebN34bUfdeUYJT13J1yG16XWQpt5PDx6Mse9GUqhR''])]"

fun categorizeIn :: "(string \<times> string list) list \<Rightarrow> string \<Rightarrow> string" where
  "categorizeIn [] pid = ''Other''"
| "categorizeIn ((cat, programs) # rest) pid =
     (if pid \<in> set programs then cat else categorizeIn rest pid)"

definition categorizeProgram :: "string \<Rightarrow> string" where
  "categorizeProgram pid = categorizeIn PROGRAM_CATEGORIES pid"

section \<open>Ranking function\<close>

text \<open>
  \<^verbatim>\<open>Array.prototype.sort\<close> is stable, and the comparator
  \<^verbatim>\<open>(a, b) => b.invocationCount - a.invocationCount\<close> orders by count, larger first:
  the result is the stable sort on the negated count, which \<open>sort_key\<close> computes.
\<close>

text \<open>
  The arithmetic of the shares. A JavaScript \<^verbatim>\<open>number\<close> is an IEEE double, and \<^verbatim>\<open>/\<close> and
  \<^verbatim>\<open>*\<close> return the double nearest to the exact result, a tie going to the even
  significand. \<open>exponentOf x\<close> is the \<open>e\<close> with \<open>2 ^ e \<le> x < 2 ^ (e + 1)\<close>, for
  positive \<open>x\<close>; \<open>roundDouble x\<close> rounds \<open>x\<close> to a significand of 53 bits. The exponent
  is not bounded: overflow and subnormal numbers do not occur for shares, which are 0 or
  lie between \<open>100 / 2 ^ 53\<close> and 100.
\<close>

definition roundHalfEven :: "real \<Rightarrow> int" where
  "roundHalfEven y =
     (let f = \<lfloor>y\<rfloor>; r = y - real_of_int f
      in if r < 1 / 2 then f
         else if 1 / 2 < r then f + 1
         else if even f then f else f + 1)"

definition exponentOf :: "real \<Rightarrow> int" where
  "exponentOf x =
     (if 1 \<le> x then bitlen \<lfloor>x\<rfloor> - 1
      else (let k = bitlen \<lfloor>1 / x\<rfloor> - 1
            in if x = 2 powi (- k) then - k else - k - 1))"

definition roundDouble :: "real \<Rightarrow> real" where
  "roundDouble x =
     (if x = 0 then 0
      else (let ulp = 2 powi (exponentOf \<bar>x\<bar> - 52)
            in sgn x * real_of_int (roundHalfEven (\<bar>x\<bar> / ulp)) * ulp))"

text \<open>
  The relative error of a quotient followed by a product, each rounded once:
  \<open>(1 + u)\<^sup>2 - 1\<close> for the unit roundoff \<open>u = 2 ^ -53\<close>.
\<close>

definition doubleEps :: real where
  "doubleEps = (1 + 1 / 2 ^ 53) ^ 2 - 1"

text \<open>
  The callback of \<^verbatim>\<open>map\<close>, which closes over \<^verbatim>\<open>total\<close>:
  \<^verbatim>\<open>total > 0 ? (count / total) * 100 : 0\<close>.
\<close>

fun toRanking :: "nat \<Rightarrow> string \<times> nat \<Rightarrow> ProgramRanking" where
  "toRanking tot (pid, count) =
     \<lparr>programId = pid,
      label = getProgramLabel pid,
      category = categorizeProgram pid,
      invocationCount = count,
      share = (if tot > 0 then roundDouble (roundDouble (real count / real tot) * 100)
               else 0)\<rparr>"

definition rankPrograms :: "program_counts \<Rightarrow> ProgramRanking list" where
  "rankPrograms pc =
     (let tot = foldl (\<lambda>a b. a + b) 0 (map snd pc)
      in take 20 (sort_key (\<lambda>r. - int (invocationCount r)) (map (toRanking tot) pc)))"

section \<open>Anomaly rule set\<close>

text \<open>
  \<^verbatim>\<open>detectAnomalies\<close> pushes onto one result array, rule after rule; each rule is a
  definition of its own here and \<open>detectAnomalies\<close> appends them in the source's order.
  The argument \<^verbatim>\<open>_topPrograms\<close> (here \<open>ranked\<close>) is not read.
  \<^verbatim>\<open>m.get(k)\<close> on a \<^verbatim>\<open>Map\<close> is \<open>map_of\<close>, with \<open>None\<close> for \<^verbatim>\<open>undefined\<close>.
\<close>

definition highFailureRule :: "BlockSummary \<Rightarrow> nat \<Rightarrow> Anomaly list" where
  "highFailureRule bs now =
     (if successRate bs < 80 \<and> totalTransactions bs > 10 then
        [\<lparr>atype = high_failure_rate,
          severity = (if successRate bs < 50 then High else Medium),
          message = MsgHighFailureRate (successRate bs),
          data = FailureData (successRate bs) (totalTransactions bs),
          atimestamp = now\<rparr>]
      else [])"

definition tpsRule :: "real option \<Rightarrow> NetworkStats \<Rightarrow> nat \<Rightarrow> Anomaly list" where
  "tpsRule baseline st now =
     (case baseline of
        None \<Rightarrow> []
      | Some base \<Rightarrow>
          if base > 0 then
            (let tpsRatio = tps st / base in
             if tpsRatio > 2 then
               [\<lparr>atype = tps_spike,
                 severity = (if tpsRatio > 3 then High else Medium),
                 message = MsgTpsSpike (tps st) tpsRatio base,
                 data = TpsData (tps st) base tpsRatio,
                 atimestamp = now\<rparr>]
             else if tpsRatio < 0.3 \<and> tps st > 0 then
               [\<lparr>atype = tps_drop,
                 severity = (if tpsRatio < 0.1 then High else Medium),
                 message = MsgTpsDrop (tps st) (tpsRatio * 100) base,
                 data = TpsData (tps st) base tpsRatio,
                 atimestamp = now\<rparr>]
             else [])
          else [])"

definition largeBlockRule :: "BlockSummary \<Rightarrow> nat \<Rightarrow> Anomaly list" where
  "largeBlockRule bs now =
     (if avgTxPerBlock bs > 2000 then
        [\<lparr>atype = large_block,
          severity = (if avgTxPerBlock bs > 5000 then High else Low),
          message = MsgLargeBlock (avgTxPerBlock bs),
          data = BlockData (avgTxPerBlock bs),
          atimestamp = now\<rparr>]
      else [])"

definition emptyBlockRule :: "BlockSummary \<Rightarrow> nat \<Rightarrow> Anomaly list" where
  "emptyBlockRule bs now =
     (if avgTxPerBlock bs < 5 \<and> blocksAnalyzed bs > 0 then
        [\<lparr>atype = empty_block,
          severity = Medium,
          message = MsgEmptyBlock (avgTxPerBlock bs),
          data = BlockData (avgTxPerBlock bs),
          atimestamp = now\<rparr>]
      else [])"

text \<open>\<^verbatim>\<open>this.history.slice(-5)\<close>: the last five entries, all of them when there are fewer.\<close>

definition previousPrograms :: "HistoricalDataPoint list \<Rightarrow> string set" where
  "previousPrograms hist =
     set (concat (map (\<lambda>h. map fst (programCounts h)) (drop (length hist - 5) hist)))"

text \<open>The body of the loop over \<^verbatim>\<open>programCounts.keys()\<close>, for one key.\<close>

definition newProgramCheck ::
  "string set \<Rightarrow> string set \<Rightarrow> program_counts \<Rightarrow> nat \<Rightarrow> string \<Rightarrow> Anomaly list" where
  "newProgramCheck previous known pc now pid =
     (if pid \<notin> previous \<and> pid \<notin> known then
        [\<lparr>atype = new_program_detected,
          severity = Low,
          message = MsgNewProgram (getProgramLabel pid),
          data = NewProgramData pid (map_of pc pid),
          atimestamp = now\<rparr>]
      else [])"

definition newProgramRule :: "AnalyticsEngine \<Rightarrow> program_counts \<Rightarrow> nat \<Rightarrow> Anomaly list" where
  "newProgramRule e pc now =
     (if length (history e) > 3 then
        (let previous = previousPrograms (history e)
         in concat (map (newProgramCheck previous (knownPrograms e) pc now) (map fst pc)))
      else [])"

text \<open>\<^verbatim>\<open>lastSnapshot.programCounts.get(programId) ?? 0\<close>\<close>

definition prevCountOf :: "HistoricalDataPoint \<Rightarrow> string \<Rightarrow> nat" where
  "prevCountOf lastSnapshot pid =
     (case map_of (programCounts lastSnapshot) pid of None \<Rightarrow> 0 | Some n \<Rightarrow> n)"

text \<open>The body of the loop over \<^verbatim>\<open>programCounts.entries()\<close>, for one entry.\<close>

fun surgeCheck :: "HistoricalDataPoint \<Rightarrow> nat \<Rightarrow> string \<times> nat \<Rightarrow> Anomaly list" where
  "surgeCheck lastSnapshot now (pid, count) =
     (let prevCount = prevCountOf lastSnapshot pid in
      if prevCount > 5 \<and> count > prevCount * 3 then
        [\<lparr>atype = program_surge,
          severity = (if count > prevCount * 10 then High else Medium),
          message = MsgProgramSurge (getProgramLabel pid) prevCount count,
          data = SurgeData pid prevCount count,
          atimestamp = now\<rparr>]
      else [])"

text \<open>
  \<^verbatim>\<open>this.history[this.history.length - 1]\<close> is read under \<^verbatim>\<open>this.history.length > 2\<close>,
  where it is the last entry.
\<close>

definition programSurgeRule :: "AnalyticsEngine \<Rightarrow> program_counts \<Rightarrow> nat \<Rightarrow> Anomaly list" where
  "programSurgeRule e pc now =
     (if length (history e) > 2 then
        (let lastSnapshot = last (history e)
         in concat (map (surgeCheck lastSnapshot now) pc))
      else [])"

definition detectAnomalies ::
  "AnalyticsEngine \<Rightarrow> NetworkStats \<Rightarrow> BlockSummary \<Rightarrow> ProgramRanking list \<Rightarrow> program_counts
     \<Rightarrow> nat \<Rightarrow> Anomaly list" where
  "detectAnomalies e st bs ranked pc now =
     highFailureRule bs now @ tpsRule (baselineTps e) st now @ largeBlockRule bs now
     @ emptyBlockRule bs now @ newProgramRule e pc now @ programSurgeRule e pc now"

text \<open>The identifier that an anomaly is about, read from its payload's \<^verbatim>\<open>programId\<close>.\<close>

fun anomalyProgram :: "Anomaly \<Rightarrow> string option" where
  "anomalyProgram a =
     (case data a of
        NewProgramData pid _ \<Rightarrow> Some pid
      | SurgeData pid _ _ \<Rightarrow> Some pid
      | _ \<Rightarrow> None)"

definition anomaliesOf :: "AnomalyType \<Rightarrow> Anomaly list \<Rightarrow> Anomaly list" where
  "anomaliesOf ty as = filter (\<lambda>a. atype a = ty) as"

definition anomaliesAbout :: "AnomalyType \<Rightarrow> string \<Rightarrow> Anomaly list \<Rightarrow> Anomaly list" where
  "anomaliesAbout ty pid as = filter (\<lambda>a. atype a = ty \<and> anomalyProgram a = Some pid) as"

section \<open>The engine\<close>

text \<open>
  The three fetches of \<open>takeSnapshot\<close> are answers of the data source, each a result or the
  reason it was rejected with. \<^verbatim>\<open>Promise.all\<close> fulfils with all three results, and
  rejects with the reason of the promise that rejects first: \<open>settleOrder\<close> names the
  fetches in the order they settle, and array order decides where it names no rejected one.
  The three calls of \<^verbatim>\<open>Date.now()\<close> are the readings \<open>nowDetect\<close>, \<open>nowPush\<close> and
  \<open>nowReturn\<close>. The argument \<^verbatim>\<open>numBlocks\<close> only reaches the data source.
\<close>

datatype FetchError = FetchError string

datatype FetchId = GetNetworkStats | GetRecentBlockProduction | GetTopPrograms

record SnapshotInput =
  statsResult :: "FetchError + NetworkStats"
  blocksResult :: "FetchError + BlockProduction list"
  countsResult :: "FetchError + program_counts"
  settleOrder :: "FetchId list"
  nowDetect :: nat
  nowPush :: nat
  nowReturn :: nat

fun rejectionOf :: "SnapshotInput \<Rightarrow> FetchId \<Rightarrow> FetchError option" where
  "rejectionOf inp GetNetworkStats =
     (case statsResult inp of Inl err \<Rightarrow> Some err | Inr _ \<Rightarrow> None)"
| "rejectionOf inp GetRecentBlockProduction =
     (case blocksResult inp of Inl err \<Rightarrow> Some err | Inr _ \<Rightarrow> None)"
| "rejectionOf inp GetTopPrograms =
     (case countsResult inp of Inl err \<Rightarrow> Some err | Inr _ \<Rightarrow> None)"

fun firstRejection :: "SnapshotInput \<Rightarrow> FetchId list \<Rightarrow> FetchError option" where
  "firstRejection inp [] = None"
| "firstRejection inp (f # fs) =
     (case rejectionOf inp f of Some err \<Rightarrow> Some err | None \<Rightarrow> firstRejection inp fs)"

definition promiseAll ::
  "SnapshotInput \<Rightarrow> FetchError + (NetworkStats \<times> BlockProduction list \<times> program_counts)" where
  "promiseAll inp =
     (case firstRejection inp (settleOrder inp) of
        Some err \<Rightarrow> Inl err
      | None \<Rightarrow>
          (case statsResult inp of
             Inl err \<Rightarrow> Inl err
           | Inr st \<Rightarrow>
               (case blocksResult inp of
                  Inl err \<Rightarrow> Inl err
                | Inr blocks \<Rightarrow>
                    (case countsResult inp of
                       Inl err \<Rightarrow> Inl err
                     | Inr pc \<Rightarrow> Inr (st, blocks, pc)))))"

definition pushHistory :: "HistoricalDataPoint list \<Rightarrow> HistoricalDataPoint \<Rightarrow> HistoricalDataPoint list" where
  "pushHistory hist p =
     (let pushed = hist @ [p]
      in if length pushed > maxHistoryLength then tl pushed else pushed)"

definition updateBaseline :: "real option \<Rightarrow> real \<Rightarrow> real option" where
  "updateBaseline baseline observed =
     (case baseline of
        None \<Rightarrow> Some observed
      | Some b \<Rightarrow> Some (b * 0.9 + observed * 0.1))"

definition trackPrograms :: "string set \<Rightarrow> program_counts \<Rightarrow> string set" where
  "trackPrograms known pc = foldl (\<lambda>s pid. insert pid s) known (map fst pc)"

definition takeSnapshot ::
  "AnalyticsEngine \<Rightarrow> SnapshotInput \<Rightarrow> (FetchError + NetworkSnapshot) \<times> AnalyticsEngine" where
  "takeSnapshot e inp =
     (case promiseAll inp of
        Inl err \<Rightarrow> (Inl err, e)
      | Inr (st, blocks, pc) \<Rightarrow>
          (let bs = summarizeBlocks blocks;
               top = rankPrograms pc;
               anoms = detectAnomalies e st bs top pc (nowDetect inp);
               hist = pushHistory (history e)
                        \<lparr>htimestamp = nowPush inp, htps = tps st,
                         txCount = totalTransactions bs, hsuccessRate = successRate bs,
                         programCounts = pc\<rparr>;
               baseline = updateBaseline (baselineTps e) (tps st);
               known = trackPrograms (knownPrograms e) pc
           in (Inr \<lparr>timestamp = nowReturn inp, stats = st, topPrograms = top,
                    blockSummary = bs, anomalies = anoms\<rparr>,
               \<lparr>history = hist, knownPrograms = known, baselineTps = baseline\<rparr>)))"

definition getBaselineTps :: "AnalyticsEngine \<Rightarrow> real option" where
  "getBaselineTps e = baselineTps e"

text \<open>
  A sequence of calls on one engine. The body of \<open>takeSnapshot\<close> after its single
  \<^verbatim>\<open>await\<close> runs without interruption, so calls act on the engine one after the other.
\<close>

fun run :: "AnalyticsEngine \<Rightarrow> SnapshotInput list \<Rightarrow> AnalyticsEngine" where
  "run e [] = e"
| "run e (inp # inps) = run (snd (takeSnapshot e inp)) inps"

text \<open>
  The calls of a sequence that complete, and the history entry each of them appends
  (\<open>pointOf\<close> is read for completed calls only; a rejected call appends nothing).
\<close>

definition completed :: "SnapshotInput \<Rightarrow> bool" where
  "completed inp = (case promiseAll inp of Inl _ \<Rightarrow> False | Inr _ \<Rightarrow> True)"

definition pointOf :: "SnapshotInput \<Rightarrow> HistoricalDataPoint" where
  "pointOf inp =
     (case promiseAll inp of
        Inr (st, blocks, pc) \<Rightarrow>
          \<lparr>htimestamp = nowPush inp, htps = tps st,
           txCount = totalTransactions (summarizeBlocks blocks),
           hsuccessRate = successRate (summarizeBlocks blocks),
           programCounts = pc\<rparr>
      | Inl _ \<Rightarrow>
          \<lparr>htimestamp = nowPush inp, htps = 0, txCount = 0, hsuccessRate = 0,
           programCounts = []\<rparr>)"

text \<open>
  Concrete answers of the data source, for evaluating the engine: \<open>statsAt t\<close> reports
  the TPS figure \<open>t\<close>; \<open>fulfilledInput t blocks pc\<close> is a call whose three fetches are
  fulfilled; in \<open>rejectedInput\<close> the fetch of the recent blocks is rejected.
\<close>

definition statsAt :: "real \<Rightarrow> NetworkStats" where
  "statsAt t =
     \<lparr>currentSlot = 250000000, blockHeight = 230000000,
      epochInfo = \<lparr>epoch = 578, slotIndex = 1000, slotsInEpoch = 432000,
                   absoluteSlot = 250000000, transactionCount = None\<rparr>,
      tps = t, validatorCount = 1500\<rparr>"

definition fulfilledInput :: "real \<Rightarrow> BlockProduction list \<Rightarrow> program_counts \<Rightarrow> SnapshotInput" where
  "fulfilledInput t blocks pc =
     \<lparr>statsResult = Inr (statsAt t), blocksResult = Inr blocks, countsResult = Inr pc,
      settleOrder = [GetNetworkStats, GetRecentBlockProduction, GetTopPrograms],
      nowDetect = 1000, nowPush = 1000, nowReturn = 1000\<rparr>"

definition rejectedInput :: SnapshotInput where
  "rejectedInput =
     \<lparr>statsResult = Inr (statsAt 3000), blocksResult = Inl (FetchError ''fetch failed''),
      countsResult = Inr [(''A'', 4)],
      settleOrder = [GetRecentBlockProduction, GetNetworkStats, GetTopPrograms],
      nowDetect = 1000, nowPush = 1000, nowReturn = 1000\<rparr>"

text \<open>
  The engine after one completed call per element of \<open>pcs\<close>, each call observing TPS 100,
  no block and the invocation counts of the element.
\<close>

definition exampleEngine :: "program_counts list \<Rightarrow> AnalyticsEngine" where
  "exampleEngine pcs = run newEngine (map (fulfilledInput 100 []) pcs)"

text \<open>
  The \<open>program_surge\<close> anomaly that a call at clock reading 1000 reports for an identifier
  with previous count \<open>prev\<close> and current count \<open>cur\<close>, at the given severity.
\<close>

definition surgeAnomaly :: "string \<Rightarrow> nat \<Rightarrow> nat \<Rightarrow> Severity \<Rightarrow> Anomaly" where
  "surgeAnomaly pid prev cur sev =
     \<lparr>atype = program_surge, severity = sev,
      message = MsgProgramSurge (getProgramLabel pid) prev cur,
      data = SurgeData pid prev cur, atimestamp = 1000\<rparr>"

section \<open>The history accessor and the object store\<close>

text \<open>
  \<^verbatim>\<open>getHistory\<close> returns \<^verbatim>\<open>[...this.history]\<close>: a new array whose slots hold the references
  that the slots of \<^verbatim>\<open>this.history\<close> hold. What a caller can reach through the returned
  array depends on which objects are shared, so the accessor is modelled over a store of
  objects. A reference is an index of the store; an array holds references to its
  elements; a history entry holds a reference to its \<^verbatim>\<open>programCounts\<close> map, the very
  \<^verbatim>\<open>Map\<close> the data source returned. The \<open>history\<close> of the engine record above is the
  sequence of entries that \<open>readHistory\<close> reads from the engine's array in the store.
\<close>

type_synonym ref = nat

datatype JsObject =
  ArrayObj "ref list"
  | PointObj nat real nat real ref
  | MapObj program_counts

type_synonym store = "JsObject list"

definition lookupObj :: "store \<Rightarrow> ref \<Rightarrow> JsObject option" where
  "lookupObj st r = (if r < length st then Some (st ! r) else None)"

text \<open>The spread copy: a fresh array object with the slots of \<open>this_history\<close>.\<close>

definition getHistory :: "store \<Rightarrow> ref \<Rightarrow> (ref \<times> store) option" where
  "getHistory st this_history =
     (case lookupObj st this_history of
        Some (ArrayObj slots) \<Rightarrow> Some (length st, st @ [ArrayObj slots])
      | _ \<Rightarrow> None)"

text \<open>The sequence of history entries that an array of the store denotes.\<close>

definition readPoint :: "store \<Rightarrow> ref \<Rightarrow> HistoricalDataPoint option" where
  "readPoint st r =
     (case lookupObj st r of
        Some (PointObj ts t n sr m) \<Rightarrow>
          (case lookupObj st m of
             Some (MapObj pc) \<Rightarrow>
               Some \<lparr>htimestamp = ts, htps = t, txCount = n, hsuccessRate = sr,
                     programCounts = pc\<rparr>
           | _ \<Rightarrow> None)
      | _ \<Rightarrow> None)"

definition readHistory :: "store \<Rightarrow> ref \<Rightarrow> HistoricalDataPoint list option" where
  "readHistory st r =
     (case lookupObj st r of
        Some (ArrayObj slots) \<Rightarrow> those (map (readPoint st) slots)
      | _ \<Rightarrow> None)"

text \<open>
  What a caller can do with the returned array \<open>ret\<close>:
  \<^item> \<open>ArraySlots slots\<close>: any writes to the array's own slots (\<^verbatim>\<open>ret[i] = x\<close>,
    \<^verbatim>\<open>push\<close>, \<^verbatim>\<open>pop\<close>, \<^verbatim>\<open>shift\<close>, \<^verbatim>\<open>splice\<close>, \<^verbatim>\<open>ret.length = n\<close>), which leave it with
    the slots \<open>slots\<close>;
  \<^item> \<open>SetTps i v\<close>: \<^verbatim>\<open>ret[i].tps = v\<close>, a write to a field of an element;
  \<^item> \<open>CountsSet i k v\<close>: \<^verbatim>\<open>ret[i].programCounts.set(k, v)\<close>, a write to an element's map.
  A write through a slot that does not exist throws and leaves the store as it is.
\<close>

datatype CallerWrite =
  ArraySlots "ref list"
  | SetTps nat real
  | CountsSet nat string nat

fun callerWrite :: "store \<Rightarrow> ref \<Rightarrow> CallerWrite \<Rightarrow> store" where
  "callerWrite st ret (ArraySlots slots) =
     (case lookupObj st ret of
        Some (ArrayObj _) \<Rightarrow> st[ret := ArrayObj slots]
      | _ \<Rightarrow> st)"
| "callerWrite st ret (SetTps i v) =
     (case lookupObj st ret of
        Some (ArrayObj slots) \<Rightarrow>
          (if i < length slots then
             (case lookupObj st (slots ! i) of
                Some (PointObj ts t n sr m) \<Rightarrow> st[slots ! i := PointObj ts v n sr m]
              | _ \<Rightarrow> st)
           else st)
      | _ \<Rightarrow> st)"
| "callerWrite st ret (CountsSet i k v) =
     (case lookupObj st ret of
        Some (ArrayObj slots) \<Rightarrow>
          (if i < length slots then
             (case lookupObj st (slots ! i) of
                Some (PointObj ts t n sr m) \<Rightarrow>
                  (case lookupObj st m of
                     Some (MapObj pc) \<Rightarrow> st[m := MapObj (mapSet pc k v)]
                   | _ \<Rightarrow> st)
              | _ \<Rightarrow> st)
           else st)
      | _ \<Rightarrow> st)"

fun isArrayWrite :: "CallerWrite \<Rightarrow> bool" where
  "isArrayWrite (ArraySlots _) = True"
| "isArrayWrite _ = False"

definition callerWrites :: "store \<Rightarrow> ref \<Rightarrow> CallerWrite list \<Rightarrow> store" where
  "callerWrites st ret ws = foldl (\<lambda>s w. callerWrite s ret w) st ws"

text \<open>
  A store of three objects: the map of a history entry (reference 0), the entry
  (reference 1) and the engine's history array, which holds that one entry (reference 2).
\<close>

definition exampleStore :: store where
  "exampleStore = [MapObj [(''A'', 1)], PointObj 1000 50 7 100 0, ArrayObj [1]]"

section \<open>Properties of the aggregator\<close>

lemma foldl_add_sum_list:
  "foldl (\<lambda>sum b. sum + f b) (a::nat) bs = a + sum_list (map f bs)"
  by (induction bs arbitrary: a) simp_all

lemma sum_list_mono_nat:
  "(\<And>b. b \<in> set bs \<Longrightarrow> f b \<le> (g b :: nat)) \<Longrightarrow> sum_list (map f bs) \<le> sum_list (map g bs)"
  by (induction bs) (simp_all add: add_mono)

lemma mkBlockProduction_successful_le:
  "numSuccessful (mkBlockProduction s t failed) \<le> numTransactions (mkBlockProduction s t failed)"
  by (simp add: mkBlockProduction_def Let_def)

lemma summarize_nonempty:
  assumes "blocks \<noteq> []"
  shows "summarizeBlocks blocks =
     \<lparr>blocksAnalyzed = length blocks,
      totalTransactions = sum_list (map numTransactions blocks),
      successRate = (if sum_list (map numTransactions blocks) > 0
         then (real (sum_list (map numSuccessful blocks)) / real (sum_list (map numTransactions blocks))) * 100 else 0),
      avgTxPerBlock = real (sum_list (map numTransactions blocks)) / real (length blocks),
      avgFeePerTx = 0\<rparr>"
  using assms by (simp add: summarizeBlocks_def Let_def foldl_add_sum_list)

lemma percent_range:
  assumes "s \<le> (t::nat)" "0 < t"
  shows "0 \<le> real s / real t * 100 \<and> real s / real t * 100 \<le> 100"
  using assms by (simp add: field_simps)

text \<open>
  Claim C2. On the empty sequence the aggregator returns the all-zero summary. On every
  non-empty sequence of block records, \<open>blocksAnalyzed\<close> is the length of the sequence,
  \<open>totalTransactions\<close> the sum of the blocks' transaction counts, \<open>successRate\<close> the sum
  of the successful counts over the sum of the transaction counts, times 100 (and 0 when
  no transaction was seen), \<open>avgTxPerBlock\<close> the total over the number of blocks, and
  \<open>avgFeePerTx\<close> is 0. For block records whose successful count is within their
  transaction count, as every record of \<open>mkBlockProduction\<close> is, the rate lies in [0, 100].
\<close>

theorem summarizeBlocks_summary:
  "summarizeBlocks [] =
     \<lparr>blocksAnalyzed = 0, totalTransactions = 0, successRate = 0, avgTxPerBlock = 0, avgFeePerTx = 0\<rparr>
   \<and> (blocks \<noteq> [] \<longrightarrow>
        blocksAnalyzed (summarizeBlocks blocks) = length blocks
      \<and> totalTransactions (summarizeBlocks blocks) = sum_list (map numTransactions blocks)
      \<and> successRate (summarizeBlocks blocks) =
           (if sum_list (map numTransactions blocks) = 0 then 0
            else real (sum_list (map numSuccessful blocks))
                   / real (sum_list (map numTransactions blocks)) * 100)
      \<and> avgTxPerBlock (summarizeBlocks blocks) =
           real (totalTransactions (summarizeBlocks blocks)) / real (length blocks)
      \<and> avgFeePerTx (summarizeBlocks blocks) = 0
      \<and> ((\<forall>b \<in> set blocks. numSuccessful b \<le> numTransactions b) \<longrightarrow>
            0 \<le> successRate (summarizeBlocks blocks) \<and> successRate (summarizeBlocks blocks) \<le> 100))"
proof (intro conjI impI)
  show "summarizeBlocks [] =
     \<lparr>blocksAnalyzed = 0, totalTransactions = 0, successRate = 0, avgTxPerBlock = 0, avgFeePerTx = 0\<rparr>"
    by (simp add: summarizeBlocks_def)
next
  assume ne: "blocks \<noteq> []"
  note eq = summarize_nonempty[OF ne]
  show "blocksAnalyzed (summarizeBlocks blocks) = length blocks" by (simp add: eq)
  show "totalTransactions (summarizeBlocks blocks) = sum_list (map numTransactions blocks)" by (simp add: eq)
  show "successRate (summarizeBlocks blocks) =
           (if sum_list (map numTransactions blocks) = 0 then 0
            else real (sum_list (map numSuccessful blocks))
                   / real (sum_list (map numTransactions blocks)) * 100)" by (simp add: eq)
  show "avgTxPerBlock (summarizeBlocks blocks) =
           real (totalTransactions (summarizeBlocks blocks)) / real (length blocks)" by (simp add: eq)
  show "avgFeePerTx (summarizeBlocks blocks) = 0" by (simp add: eq)
  assume wf: "\<forall>b \<in> set blocks. numSuccessful b \<le> numTransactions b"
  then have le: "sum_list (map numSuccessful blocks) \<le> sum_list (map numTransactions blocks)"
    by (intro sum_list_mono_nat) simp
  show "0 \<le> successRate (summarizeBlocks blocks)"
    using percent_range[OF le] by (simp add: eq)
  show "successRate (summarizeBlocks blocks) \<le> 100"
    using percent_range[OF le] by (simp add: eq)
qed

theorem summarizeBlocks_summary_witness:
  "[mkBlockProduction 7 None [False, True, False], mkBlockProduction 6 None [False]] \<noteq> []
   \<and> numSuccessful (mkBlockProduction 7 None [False, True, False])
        \<le> numTransactions (mkBlockProduction 7 None [False, True, False])
   \<and> numSuccessful (mkBlockProduction 6 None [False])
        \<le> numTransactions (mkBlockProduction 6 None [False])
   \<and> blocksAnalyzed (summarizeBlocks [mkBlockProduction 7 None [False, True, False], mkBlockProduction 6 None [False]]) = 2
   \<and> totalTransactions (summarizeBlocks [mkBlockProduction 7 None [False, True, False], mkBlockProduction 6 None [False]]) = 4
   \<and> successRate (summarizeBlocks [mkBlockProduction 7 None [False, True, False], mkBlockProduction 6 None [False]]) = 75
   \<and> avgTxPerBlock (summarizeBlocks [mkBlockProduction 7 None [False, True, False], mkBlockProduction 6 None [False]]) = 2
   \<and> successRate (summarizeBlocks [mkBlockProduction 7 None [False, True, False], mkBlockProduction 6 None [False]]) \<le> 100"
  using summarizeBlocks_summary
          [of "[mkBlockProduction 7 None [False, True, False], mkBlockProduction 6 None [False]]"]
  by (simp add: mkBlockProduction_def)

section \<open>Properties of the ranking function\<close>

subsection \<open>Rounding to a double\<close>

lemma roundHalfEven_error: "\<bar>real_of_int (roundHalfEven y) - y\<bar> \<le> 1 / 2"
proof -
  have "real_of_int \<lfloor>y\<rfloor> \<le> y" "y < real_of_int \<lfloor>y\<rfloor> + 1"
    by linarith+
  then show ?thesis
    by (auto simp: roundHalfEven_def Let_def)
qed

lemma roundHalfEven_nonneg: "0 \<le> y \<Longrightarrow> 0 \<le> roundHalfEven y"
  by (auto simp: roundHalfEven_def Let_def)

lemma exponentOf_lower:
  assumes "0 < x"
  shows "2 powi exponentOf x \<le> x"
proof (cases "1 \<le> x")
  case True
  then have pos: "0 < \<lfloor>x\<rfloor>" by simp
  then have nn: "0 \<le> bitlen \<lfloor>x\<rfloor> - 1"
    using bitlen_eq_zero_iff [of "\<lfloor>x\<rfloor>"] bitlen_nonneg [of "\<lfloor>x\<rfloor>"] by linarith
  from bitlen_bounds [OF pos] have "(2::int) ^ nat (bitlen \<lfloor>x\<rfloor> - 1) \<le> \<lfloor>x\<rfloor>" ..
  then have "real_of_int (2 ^ nat (bitlen \<lfloor>x\<rfloor> - 1)) \<le> real_of_int \<lfloor>x\<rfloor>"
    by (simp only: of_int_le_iff)
  then have "(2::real) ^ nat (bitlen \<lfloor>x\<rfloor> - 1) \<le> x"
    by (simp add: le_floor_iff)
  with True nn show ?thesis
    by (simp add: exponentOf_def power_int_def)
next
  case False
  with assms have y: "1 < 1 / x" by simp
  let ?n = "\<lfloor>1 / x\<rfloor>"
  let ?k = "bitlen ?n - 1"
  from y have pos: "0 < ?n" by simp
  then have nn: "0 \<le> ?k"
    using bitlen_eq_zero_iff [of ?n] bitlen_nonneg [of ?n] by linarith
  from bitlen_bounds [OF pos] have "?n < 2 ^ nat (bitlen ?n)" ..
  then have "?n + 1 \<le> 2 ^ nat (?k + 1)" by simp
  then have "real_of_int (?n + 1) \<le> real_of_int (2 ^ nat (?k + 1))"
    by (simp only: of_int_le_iff)
  then have up: "real_of_int (?n + 1) \<le> 2 ^ nat (?k + 1)"
    by (simp only: of_int_power of_int_numeral)
  have "1 / x < real_of_int (?n + 1)" by linarith
  from this up have "1 / x < 2 ^ nat (?k + 1)"
    by (rule less_le_trans)
  with assms have "1 < x * 2 ^ nat (?k + 1)"
    by (simp add: field_simps)
  then have "1 / 2 ^ nat (?k + 1) < x"
    by (simp add: field_simps)
  moreover from nn have "(2::real) powi (- ?k - 1) = 1 / 2 ^ nat (?k + 1)"
    by (simp add: power_int_def nat_add_distrib field_simps)
  ultimately have low: "(2::real) powi (- ?k - 1) \<le> x" by simp
  show ?thesis
  proof (cases "x = 2 powi (- ?k)")
    case True
    with False have "exponentOf x = - ?k"
      by (simp add: exponentOf_def Let_def)
    with True show ?thesis by simp
  next
    case ne: False
    with False have "exponentOf x = - ?k - 1"
      by (simp add: exponentOf_def Let_def)
    with low show ?thesis by simp
  qed
qed

lemma exponentOf_upper:
  assumes "0 < x"
  shows "x < 2 powi (exponentOf x + 1)"
proof (cases "1 \<le> x")
  case True
  then have pos: "0 < \<lfloor>x\<rfloor>" by simp
  then have nn: "0 \<le> bitlen \<lfloor>x\<rfloor> - 1"
    using bitlen_eq_zero_iff [of "\<lfloor>x\<rfloor>"] bitlen_nonneg [of "\<lfloor>x\<rfloor>"] by linarith
  from bitlen_bounds [OF pos] have "\<lfloor>x\<rfloor> < 2 ^ nat (bitlen \<lfloor>x\<rfloor>)" ..
  then have "\<lfloor>x\<rfloor> + 1 \<le> 2 ^ nat (bitlen \<lfloor>x\<rfloor>)" by simp
  then have "real_of_int (\<lfloor>x\<rfloor> + 1) \<le> real_of_int (2 ^ nat (bitlen \<lfloor>x\<rfloor>))"
    by (simp only: of_int_le_iff)
  then have up: "real_of_int (\<lfloor>x\<rfloor> + 1) \<le> 2 ^ nat (bitlen \<lfloor>x\<rfloor>)"
    by (simp only: of_int_power of_int_numeral)
  have "x < real_of_int (\<lfloor>x\<rfloor> + 1)" by linarith
  from this up have "x < 2 ^ nat (bitlen \<lfloor>x\<rfloor>)"
    by (rule less_le_trans)
  with True nn show ?thesis
    by (simp add: exponentOf_def power_int_def)
next
  case False
  with assms have y: "1 < 1 / x" by simp
  let ?n = "\<lfloor>1 / x\<rfloor>"
  let ?k = "bitlen ?n - 1"
  from y have pos: "0 < ?n" by simp
  then have nn: "0 \<le> ?k"
    using bitlen_eq_zero_iff [of ?n] bitlen_nonneg [of ?n] by linarith
  from bitlen_bounds [OF pos] have "(2::int) ^ nat ?k \<le> ?n" ..
  then have "real_of_int (2 ^ nat ?k) \<le> real_of_int ?n"
    by (simp only: of_int_le_iff)
  then have "(2::real) ^ nat ?k \<le> real_of_int ?n"
    by (simp only: of_int_power of_int_numeral)
  moreover have "real_of_int ?n \<le> 1 / x" by linarith
  ultimately have "(2::real) ^ nat ?k \<le> 1 / x" by (rule order_trans)
  with assms have "x * 2 ^ nat ?k \<le> 1"
    by (simp add: field_simps)
  then have "x \<le> 1 / 2 ^ nat ?k"
    by (simp add: field_simps)
  moreover from nn have "(2::real) powi (- ?k) = 1 / 2 ^ nat ?k"
    by (simp add: power_int_def field_simps)
  ultimately have up: "x \<le> 2 powi (- ?k)" by simp
  show ?thesis
  proof (cases "x = 2 powi (- ?k)")
    case True
    with False have e: "exponentOf x = - ?k"
      by (simp add: exponentOf_def Let_def)
    have "(2::real) powi (- ?k) < 2 powi (- ?k + 1)"
      by (rule power_int_strict_increasing) simp_all
    with True e show ?thesis by simp
  next
    case ne: False
    with False have "exponentOf x = - ?k - 1"
      by (simp add: exponentOf_def Let_def)
    with up ne show ?thesis by simp
  qed
qed

lemma roundDouble_nonneg: "0 \<le> x \<Longrightarrow> 0 \<le> roundDouble x"
  by (auto simp: roundDouble_def Let_def sgn_if intro!: mult_nonneg_nonneg roundHalfEven_nonneg)

lemma roundDouble_error:
  assumes "0 \<le> x"
  shows "\<bar>roundDouble x - x\<bar> \<le> x / 2 ^ 53"
proof (cases "x = 0")
  case True
  then show ?thesis by (simp add: roundDouble_def)
next
  case False
  with assms have pos: "0 < x" by simp
  define e where "e = exponentOf x"
  define ulp :: real where "ulp = 2 powi (e - 52)"
  define m where "m = roundHalfEven (x / ulp)"
  have ulp_pos: "0 < ulp" by (simp add: ulp_def)
  have rd: "roundDouble x = real_of_int m * ulp"
    using pos by (simp add: roundDouble_def Let_def e_def ulp_def m_def)
  have "real_of_int m * ulp - x = (real_of_int m - x / ulp) * ulp"
    using ulp_pos by (simp add: field_simps)
  then have "\<bar>real_of_int m * ulp - x\<bar> = \<bar>real_of_int m - x / ulp\<bar> * \<bar>ulp\<bar>"
    by (simp only: abs_mult)
  also have "\<dots> = \<bar>real_of_int m - x / ulp\<bar> * ulp"
    using ulp_pos by simp
  also have "\<dots> \<le> 1 / 2 * ulp"
    using roundHalfEven_error [of "x / ulp"] ulp_pos
    by (intro mult_right_mono) (simp_all add: m_def)
  also have "1 / 2 * ulp = 2 powi e / 2 ^ 53"
    by (simp add: ulp_def power_int_diff)
  also have "\<dots> \<le> x / 2 ^ 53"
    using exponentOf_lower [OF pos] by (simp add: e_def divide_right_mono)
  finally show ?thesis by (simp add: rd)
qed

lemma doubleEps_pos: "0 < doubleEps"
  by (simp add: doubleEps_def)

lemma share_error:
  assumes "0 \<le> a"
  shows "\<bar>roundDouble (roundDouble a * 100) - a * 100\<bar> \<le> a * 100 * doubleEps"
proof -
  define u :: real where "u = 1 / 2 ^ 53"
  define a' where "a' = roundDouble a"
  define b where "b = roundDouble (a' * 100)"
  have u: "0 < u" by (simp add: u_def)
  have a'0: "0 \<le> a'" using assms by (simp add: a'_def roundDouble_nonneg)
  have e1: "\<bar>a' - a\<bar> \<le> a * u"
    using roundDouble_error [OF assms] by (simp add: a'_def u_def)
  have e2: "\<bar>b - a' * 100\<bar> \<le> a' * 100 * u"
    using roundDouble_error [of "a' * 100"] a'0 by (simp add: b_def u_def)
  from e1 have a'_hi: "a' \<le> a * (1 + u)" and a'_lo: "a * (1 - u) \<le> a'"
    by (simp_all add: abs_le_iff algebra_simps)
  have "b \<le> a' * 100 * (1 + u)"
    using e2 by (simp add: abs_le_iff algebra_simps)
  also have "\<dots> \<le> a * (1 + u) * 100 * (1 + u)"
    using a'_hi u by (intro mult_right_mono) simp_all
  finally have hi: "b - a * 100 \<le> a * 100 * ((1 + u) ^ 2 - 1)"
    by (simp add: power2_eq_square algebra_simps)
  have "a * 100 * (1 - u) * (1 - u) \<le> a' * 100 * (1 - u)"
    using a'_lo u by (intro mult_right_mono) (simp_all add: u_def)
  also have "\<dots> \<le> b"
    using e2 by (simp add: abs_le_iff algebra_simps)
  finally have "a * 100 - b \<le> a * 100 * (1 - (1 - u) ^ 2)"
    by (simp add: power2_eq_square algebra_simps)
  also have "\<dots> \<le> a * 100 * ((1 + u) ^ 2 - 1)"
    using assms u by (intro mult_left_mono) (simp_all add: power2_eq_square algebra_simps)
  finally have lo: "a * 100 - b \<le> a * 100 * ((1 + u) ^ 2 - 1)" .
  from hi lo show ?thesis
    by (simp add: abs_le_iff b_def a'_def u_def doubleEps_def)
qed


subsection \<open>The counts of the client\<close>

lemma set_mapSet: "set (mapSet m k v) \<subseteq> insert (k, v) (set m)"
  by (induction m k v rule: mapSet.induct) auto

lemma keys_mapSet:
  "map fst (mapSet m k v) = (if k \<in> fst ` set m then map fst m else map fst m @ [k])"
  by (induction m k v rule: mapSet.induct) force+

lemma countInstructions_invariant:
  "distinct (map fst (countInstructions pids))
   \<and> (\<forall>e \<in> set (countInstructions pids). 1 \<le> snd e)"
proof -
  have "distinct (map fst (foldl countInstruction m pids))
        \<and> (\<forall>e \<in> set (foldl countInstruction m pids). 1 \<le> snd e)"
    if "distinct (map fst m)" "\<forall>e \<in> set m. 1 \<le> snd e" for m
    using that
  proof (induction pids arbitrary: m)
    case Nil
    then show ?case by simp
  next
    case (Cons pid pids)
    have "distinct (map fst (countInstruction m pid))"
      using Cons.prems(1) by (simp add: countInstruction_def keys_mapSet)
    moreover have "\<forall>e \<in> set (countInstruction m pid). 1 \<le> snd e"
      using Cons.prems(2) set_mapSet [of m pid] unfolding countInstruction_def by fastforce
    ultimately show ?case
      using Cons.IH by simp
  qed
  from this [of "[]"] show ?thesis
    by (simp add: countInstructions_def)
qed

subsection \<open>Ranking\<close>

lemma foldl_plus_sum_list: "foldl (\<lambda>a b. a + b) (a::nat) xs = a + sum_list xs"
  by (induction xs arbitrary: a) simp_all

lemma rankPrograms_eq:
  "rankPrograms pc =
     take 20 (sort_key (\<lambda>r. - int (invocationCount r)) (map (toRanking (sum_list (map snd pc))) pc))"
  by (simp add: rankPrograms_def Let_def foldl_plus_sum_list)

lemma sum_list_insort_key:
  "sum_list (map g (insort_key k x xs)) = (g x :: 'b :: comm_monoid_add) + sum_list (map g xs)"
  by (induction xs) (simp_all add: add.left_commute)

lemma sum_list_sort_key:
  "sum_list (map g (sort_key k xs)) = (sum_list (map g xs) :: 'b :: comm_monoid_add)"
  by (induction xs) (simp_all add: sum_list_insort_key)

lemma sorted_desc_sort_key:
  "sorted_wrt (\<lambda>a b. invocationCount b \<le> invocationCount a)
     (sort_key (\<lambda>r. - int (invocationCount r)) xs)"
proof -
  have "sorted (map (\<lambda>r. - int (invocationCount r)) (sort_key (\<lambda>r. - int (invocationCount r)) xs))"
    by (rule sorted_sort_key)
  then show ?thesis
    by (simp add: sorted_wrt_map)
qed

lemma sorted_wrt_take_drop:
  assumes "sorted_wrt P xs" "a \<in> set (take n xs)" "b \<in> set (drop n xs)"
  shows "P a b"
proof -
  from assms(1) have "sorted_wrt P (take n xs @ drop n xs)" by simp
  with assms(2,3) show ?thesis
    unfolding sorted_wrt_append by blast
qed

lemma count_sum_full:
  "sum_list (map invocationCount (sort_key k (map (toRanking t) pc))) = sum_list (map snd pc)"
proof -
  have "sum_list (map invocationCount (map (toRanking t) pc)) = sum_list (map snd pc)"
    by (induction pc) auto
  then show ?thesis
    by (simp only: sum_list_sort_key)
qed

lemma share_of_ranking:
  assumes "r \<in> toRanking t ` set pc"
  shows "\<bar>share r - (if t = 0 then 0 else real (invocationCount r) / real t * 100)\<bar>
           \<le> (if t = 0 then 0 else real (invocationCount r) / real t * 100) * doubleEps"
proof -
  from assms obtain p c where r: "r = toRanking t (p, c)" by auto
  show ?thesis
  proof (cases "t = 0")
    case True
    with r show ?thesis by simp
  next
    case False
    have "0 \<le> real c / real t" by simp
    from share_error [OF this] False r show ?thesis by simp
  qed
qed

lemma rel_error_bounds:
  fixes x s e :: real
  assumes "\<bar>x - s\<bar> \<le> s * e"
  shows "s * (1 - e) \<le> x" and "x \<le> s * (1 + e)"
  using assms by (simp_all add: abs_le_iff algebra_simps)

lemma sum_share_bounds:
  assumes "0 < t" "set xs \<subseteq> toRanking t ` set pc"
  shows "real (sum_list (map invocationCount xs)) / real t * 100 * (1 - doubleEps)
           \<le> sum_list (map share xs)
       \<and> sum_list (map share xs)
           \<le> real (sum_list (map invocationCount xs)) / real t * 100 * (1 + doubleEps)"
  using assms(2)
proof (induction xs)
  case Nil
  then show ?case by simp
next
  case (Cons r xs)
  then have "r \<in> toRanking t ` set pc" and sub: "set xs \<subseteq> toRanking t ` set pc"
    by auto
  define s where "s = real (invocationCount r) / real t * 100"
  define S where "S = real (sum_list (map invocationCount xs)) / real t * 100"
  from share_of_ranking [OF \<open>r \<in> toRanking t ` set pc\<close>] assms(1)
  have "\<bar>share r - s\<bar> \<le> s * doubleEps"
    by (simp add: s_def)
  then have r_lo: "s * (1 - doubleEps) \<le> share r" and r_hi: "share r \<le> s * (1 + doubleEps)"
    by (rule rel_error_bounds)+
  from Cons.IH [OF sub]
  have x_lo: "S * (1 - doubleEps) \<le> sum_list (map share xs)"
    and x_hi: "sum_list (map share xs) \<le> S * (1 + doubleEps)"
    by (simp_all add: S_def)
  have split: "real (sum_list (map invocationCount (r # xs))) / real t * 100 = s + S"
    by (simp add: s_def S_def add_divide_distrib distrib_right)
  have "(s + S) * (1 - doubleEps) \<le> share r + sum_list (map share xs)"
    using r_lo x_lo by (simp add: distrib_right)
  moreover have "share r + sum_list (map share xs) \<le> (s + S) * (1 + doubleEps)"
    using r_hi x_hi by (simp add: distrib_right)
  ultimately show ?case
    unfolding split by simp
qed

lemma sum_list_all_zero:
  "(\<And>x. x \<in> set xs \<Longrightarrow> f x = (0::real)) \<Longrightarrow> sum_list (map f xs) = 0"
  by (induction xs) simp_all

lemma rank_subset: "set (sort_key k (map (toRanking t) pc)) \<subseteq> toRanking t ` set pc"
  by simp

lemma eps_at_2_52: "2 ^ 52 * doubleEps \<le> 1 + doubleEps"
  by (simp add: doubleEps_def power2_eq_square)


text \<open>
  Claim C3, as amended. For every invocation-count map \<open>pc\<close> with total \<open>t\<close>:
  the returned rankings are sorted by invocation count, larger first; they are
  \<open>min 20 (length pc)\<close> many and every entry left out has a count no larger than any
  returned one; every returned entry is an entry of the map whose share is the double
  \<open>count / t * 100\<close>, the quotient and the product each rounded once, which is
  \<open>count / t * 100\<close> within the rounding of the two operations, and 0 when \<open>t\<close> is 0. The shares returned sum to 100 up to that rounding when the map
  has at most 20 entries and \<open>t\<close> is positive, and to 0 when \<open>t\<close> is 0 (the empty map
  included). When the ranking is cut to the top 20 the sum is at most 100, for a map
  whose counts are all at least 1, as the client's are, and whose total is at most
  \<open>2 ^ 52\<close>.
\<close>

theorem rankPrograms_ranking:
  "sorted_wrt (\<lambda>a b. invocationCount b \<le> invocationCount a) (rankPrograms pc)
   \<and> length (rankPrograms pc) = min 20 (length pc)
   \<and> (\<forall>r \<in> set (rankPrograms pc). \<forall>e \<in> set pc.
         fst e \<notin> programId ` set (rankPrograms pc) \<longrightarrow> snd e \<le> invocationCount r)
   \<and> (\<forall>r \<in> set (rankPrograms pc).
         (programId r, invocationCount r) \<in> set pc
       \<and> share r = (if sum_list (map snd pc) = 0 then 0
                    else roundDouble
                           (roundDouble (real (invocationCount r) / real (sum_list (map snd pc)))
                            * 100))
       \<and> \<bar>share r - (if sum_list (map snd pc) = 0 then 0
                       else real (invocationCount r) / real (sum_list (map snd pc)) * 100)\<bar>
           \<le> (if sum_list (map snd pc) = 0 then 0
               else real (invocationCount r) / real (sum_list (map snd pc)) * 100) * doubleEps)
   \<and> (length pc \<le> 20 \<and> 0 < sum_list (map snd pc) \<longrightarrow>
         \<bar>sum_list (map share (rankPrograms pc)) - 100\<bar> \<le> 100 * doubleEps)
   \<and> (sum_list (map snd pc) = 0 \<longrightarrow> sum_list (map share (rankPrograms pc)) = 0)
   \<and> (20 < length pc \<and> (\<forall>e \<in> set pc. 1 \<le> snd e) \<and> sum_list (map snd pc) \<le> 2 ^ 52 \<longrightarrow>
         sum_list (map share (rankPrograms pc)) \<le> 100)"
proof -
  define t where "t = sum_list (map snd pc)"
  define full where "full = sort_key (\<lambda>r. - int (invocationCount r)) (map (toRanking t) pc)"
  have ret: "rankPrograms pc = take 20 full"
    by (simp add: rankPrograms_eq full_def t_def)
  have full_sub: "set full \<subseteq> toRanking t ` set pc"
    by (simp add: full_def)
  have ret_sub: "set (rankPrograms pc) \<subseteq> toRanking t ` set pc"
    unfolding ret using full_sub set_take_subset by fast
  have sorted_full: "sorted_wrt (\<lambda>a b. invocationCount b \<le> invocationCount a) full"
    unfolding full_def by (rule sorted_desc_sort_key)
  have len_full: "length full = length pc"
    by (simp add: full_def)
  have count_full: "sum_list (map invocationCount full) = t"
    unfolding full_def by (rule count_sum_full [of _ t pc, folded t_def])

  have c1: "sorted_wrt (\<lambda>a b. invocationCount b \<le> invocationCount a) (rankPrograms pc)"
    unfolding ret using sorted_full by (rule sorted_wrt_take)
  have c2: "length (rankPrograms pc) = min 20 (length pc)"
    by (simp add: ret len_full min.commute)
  have c3: "snd e \<le> invocationCount r"
    if "r \<in> set (rankPrograms pc)" "e \<in> set pc" "fst e \<notin> programId ` set (rankPrograms pc)"
    for r e
  proof -
    obtain p c where e: "e = (p, c)" by (cases e)
    from that(2) have "toRanking t e \<in> set full"
      by (simp add: full_def)
    moreover have "toRanking t e \<notin> set (rankPrograms pc)"
    proof
      assume "toRanking t e \<in> set (rankPrograms pc)"
      then have "programId (toRanking t e) \<in> programId ` set (rankPrograms pc)"
        by (rule imageI)
      with that(3) e show False by simp
    qed
    ultimately have "toRanking t e \<in> set (drop 20 full)"
      using set_append [of "take 20 full" "drop 20 full"] by (simp add: ret)
    with sorted_full that(1) have "invocationCount (toRanking t e) \<le> invocationCount r"
      unfolding ret by (rule sorted_wrt_take_drop)
    with e show ?thesis by simp
  qed
  have c4: "(programId r, invocationCount r) \<in> set pc
       \<and> share r = (if t = 0 then 0
                    else roundDouble (roundDouble (real (invocationCount r) / real t) * 100))
       \<and> \<bar>share r - (if t = 0 then 0 else real (invocationCount r) / real t * 100)\<bar>
           \<le> (if t = 0 then 0 else real (invocationCount r) / real t * 100) * doubleEps"
    if "r \<in> set (rankPrograms pc)" for r
  proof -
    from that ret_sub have r: "r \<in> toRanking t ` set pc" by blast
    then obtain p c where "(p, c) \<in> set pc" "r = toRanking t (p, c)" by auto
    then have "(programId r, invocationCount r) \<in> set pc"
      and "share r = (if t = 0 then 0
                      else roundDouble (roundDouble (real (invocationCount r) / real t) * 100))"
      by simp_all
    with share_of_ranking [OF r] show ?thesis by blast
  qed
  have c5: "\<bar>sum_list (map share (rankPrograms pc)) - 100\<bar> \<le> 100 * doubleEps"
    if "length pc \<le> 20 \<and> 0 < t"
  proof -
    from that have all: "rankPrograms pc = full" and pos: "0 < t"
      by (simp_all add: ret len_full)
    from sum_share_bounds [OF pos full_sub] pos
    have "100 * (1 - doubleEps) \<le> sum_list (map share full)"
      and "sum_list (map share full) \<le> 100 * (1 + doubleEps)"
      by (simp_all add: count_full)
    then show ?thesis
      by (simp add: all abs_le_iff algebra_simps)
  qed
  have c6: "sum_list (map share (rankPrograms pc)) = 0" if "t = 0"
  proof -
    have "share r = 0" if "r \<in> set (rankPrograms pc)" for r
      using c4 [OF that] \<open>t = 0\<close> by simp
    then show ?thesis by (rule sum_list_all_zero)
  qed
  have c7: "sum_list (map share (rankPrograms pc)) \<le> 100"
    if h: "20 < length pc \<and> (\<forall>e \<in> set pc. 1 \<le> snd e) \<and> t \<le> 2 ^ 52"
  proof -
    let ?kept = "sum_list (map invocationCount (take 20 full))"
    let ?cut = "sum_list (map invocationCount (drop 20 full))"
    from h have ne: "drop 20 full \<noteq> []"
      by (simp add: len_full)
    then obtain d ds where d: "drop 20 full = d # ds"
      by (cases "drop 20 full") auto
    then have "d \<in> set full"
      using set_drop_subset [of 20 full] by (metis list.set_intros(1) subsetD)
    with full_sub obtain e where "e \<in> set pc" "d = toRanking t e" by blast
    with h have "1 \<le> invocationCount d"
      by (cases e) auto
    then have cut: "1 \<le> ?cut"
      by (simp add: d)
    have "?kept + ?cut = sum_list (map invocationCount (take 20 full @ drop 20 full))"
      by (simp only: map_append sum_list_append)
    then have sum: "?kept + ?cut = t"
      by (simp add: count_full)
    with cut have pos: "0 < t" and kept: "?kept + 1 \<le> t"
      by simp_all
    from kept have kept_r: "real ?kept \<le> real t - 1"
      by linarith
    from h have "real t \<le> 2 ^ 52" 
      by (metis of_nat_le_iff of_nat_numeral of_nat_power)
    then have "real t * doubleEps \<le> 2 ^ 52 * doubleEps"
      using doubleEps_pos by (intro mult_right_mono) simp_all
    with eps_at_2_52 have teps: "real t * doubleEps \<le> 1 + doubleEps"
      by linarith
    have "real ?kept * (1 + doubleEps) \<le> (real t - 1) * (1 + doubleEps)"
      using kept_r doubleEps_pos by (intro mult_right_mono) simp_all
    also have "\<dots> = real t + (real t * doubleEps - (1 + doubleEps))"
      by (simp add: algebra_simps)
    also have "\<dots> \<le> real t"
      using teps by simp
    finally have frac: "real ?kept * (1 + doubleEps) / real t \<le> 1"
      using pos by simp
    have "set (take 20 full) \<subseteq> toRanking t ` set pc"
      using ret_sub by (simp add: ret)
    from sum_share_bounds [OF pos this]
    have "sum_list (map share (take 20 full)) \<le> real ?kept / real t * 100 * (1 + doubleEps)"
      by simp
    also have "\<dots> = real ?kept * (1 + doubleEps) / real t * 100"
      by simp
    also have "\<dots> \<le> 1 * 100"
      using frac by (intro mult_right_mono) simp_all
    finally show ?thesis
      by (simp add: ret)
  qed
  from c1 c2 c3 c4 c5 c6 c7 show ?thesis
    unfolding t_def by blast
qed


lemma shares_thirds:
  "map share (rankPrograms [(''A'', 1), (''B'', 1), (''C'', 1)]) =
     [2345624805922133 / 70368744177664, 2345624805922133 / 70368744177664,
      2345624805922133 / 70368744177664]"
  by code_simp

lemma shares_elevenths:
  "rankPrograms [(''A'', 2), (''B'', 9)] =
     [\<lparr>programId = ''B'', label = ''B'', category = ''Other'', invocationCount = 9,
       share = 5757442705445237 / 70368744177664\<rparr>,
      \<lparr>programId = ''A'', label = ''A'', category = ''Other'', invocationCount = 2,
       share = 5117726849284655 / 281474976710656\<rparr>]"
  by code_simp

text \<open>A tie: \<open>(2 ^ 49 + 1) / 2 ^ 50 * 100\<close> lies halfway between two doubles.\<close>

lemma share_tie:
  "roundDouble (roundDouble (562949953421313 / 1125899906842624) * 100) =
     1759218604441603 / 35184372088832"
  by code_simp

theorem rankPrograms_ranking_witness:
  "countInstructions [''A'', ''B'', ''C''] = [(''A'', 1), (''B'', 1), (''C'', 1)]
   \<and> map share (rankPrograms [(''A'', 1), (''B'', 1), (''C'', 1)]) =
       [2345624805922133 / 70368744177664, 2345624805922133 / 70368744177664,
        2345624805922133 / 70368744177664]
   \<and> sum_list (map share (rankPrograms [(''A'', 1), (''B'', 1), (''C'', 1)])) =
       7036874417766399 / 70368744177664
   \<and> \<bar>sum_list (map share (rankPrograms [(''A'', 1), (''B'', 1), (''C'', 1)])) - 100\<bar>
       \<le> 100 * doubleEps
   \<and> map invocationCount (rankPrograms [(''A'', 2), (''B'', 9)]) = [9, 2]
   \<and> sum_list (map share (rankPrograms [(''A'', 2), (''B'', 9)])) =
       28147497671065603 / 281474976710656
   \<and> \<bar>sum_list (map share (rankPrograms [(''A'', 2), (''B'', 9)])) - 100\<bar> \<le> 100 * doubleEps
   \<and> roundDouble (roundDouble (562949953421313 / 1125899906842624) * 100) =
       1759218604441603 / 35184372088832
   \<and> 20 < length ([(''a'', 1), (''b'', 1), (''c'', 1), (''d'', 1), (''e'', 1), (''f'', 1), (''g'', 1), (''h'', 1), (''i'', 1), (''j'', 1), (''k'', 1), (''l'', 1), (''m'', 1), (''n'', 1), (''o'', 1), (''p'', 1), (''q'', 1), (''r'', 1), (''s'', 1), (''t'', 1), (''u'', 1)] :: program_counts)
   \<and> sum_list (map snd [(''a'', 1), (''b'', 1), (''c'', 1), (''d'', 1), (''e'', 1), (''f'', 1), (''g'', 1), (''h'', 1), (''i'', 1), (''j'', 1), (''k'', 1), (''l'', 1), (''m'', 1), (''n'', 1), (''o'', 1), (''p'', 1), (''q'', 1), (''r'', 1), (''s'', 1), (''t'', 1), (''u'', 1)]) = (21::nat)
   \<and> length (rankPrograms [(''a'', 1), (''b'', 1), (''c'', 1), (''d'', 1), (''e'', 1), (''f'', 1), (''g'', 1), (''h'', 1), (''i'', 1), (''j'', 1), (''k'', 1), (''l'', 1), (''m'', 1), (''n'', 1), (''o'', 1), (''p'', 1), (''q'', 1), (''r'', 1), (''s'', 1), (''t'', 1), (''u'', 1)]) = 20
   \<and> sum_list (map share (rankPrograms [(''a'', 1), (''b'', 1), (''c'', 1), (''d'', 1), (''e'', 1), (''f'', 1), (''g'', 1), (''h'', 1), (''i'', 1), (''j'', 1), (''k'', 1), (''l'', 1), (''m'', 1), (''n'', 1), (''o'', 1), (''p'', 1), (''q'', 1), (''r'', 1), (''s'', 1), (''t'', 1), (''u'', 1)])) \<le> 100"
proof -
  let ?thirds = "[(''A'', 1::nat), (''B'', 1), (''C'', 1)]"
  let ?elevenths = "[(''A'', 2::nat), (''B'', 9)]"
  let ?many = "[(''a'', 1), (''b'', 1), (''c'', 1), (''d'', 1), (''e'', 1), (''f'', 1), (''g'', 1), (''h'', 1), (''i'', 1), (''j'', 1), (''k'', 1), (''l'', 1), (''m'', 1), (''n'', 1), (''o'', 1), (''p'', 1), (''q'', 1), (''r'', 1), (''s'', 1), (''t'', 1), (''u'', 1)] :: program_counts"
  have a1: "countInstructions [''A'', ''B'', ''C''] = ?thirds"
    by (simp add: countInstructions_def countInstruction_def)
  have a2: "sum_list (map share (rankPrograms ?thirds)) = 7036874417766399 / 70368744177664"
    unfolding shares_thirds by simp
  have a3: "\<bar>sum_list (map share (rankPrograms ?thirds)) - 100\<bar> \<le> 100 * doubleEps"
    using rankPrograms_ranking [of ?thirds] by simp
  have b1: "map invocationCount (rankPrograms ?elevenths) = [9, 2]"
    unfolding shares_elevenths by simp
  have b2: "sum_list (map share (rankPrograms ?elevenths)) = 28147497671065603 / 281474976710656"
    unfolding shares_elevenths by simp
  have b3: "\<bar>sum_list (map share (rankPrograms ?elevenths)) - 100\<bar> \<le> 100 * doubleEps"
    using rankPrograms_ranking [of ?elevenths] by simp
  have c1: "20 < length ?many" by simp
  have c2: "sum_list (map snd ?many) = 21" by simp
  have c3: "length (rankPrograms ?many) = 20"
    using rankPrograms_ranking [of ?many] by simp
  have c4: "sum_list (map share (rankPrograms ?many)) \<le> 100"
    using rankPrograms_ranking [of ?many] by simp
  from a1 shares_thirds a2 a3 b1 b2 b3 share_tie c1 c2 c3 c4 show ?thesis
    by (intro conjI)
qed

text \<open>
  The claim as stated fails on the empty map, which has at most 20 entries: no share is
  returned, and the sum is 0, which no rounding takes to 100.
\<close>

theorem rankPrograms_empty_counterexample:
  "length ([] :: program_counts) \<le> 20
   \<and> sum_list (map share (rankPrograms [])) = 0
   \<and> 100 * doubleEps < \<bar>sum_list (map share (rankPrograms [])) - 100\<bar>"
  by (simp add: rankPrograms_def doubleEps_def power2_eq_square)

section \<open>Properties of the engine\<close>

lemma promiseAll_Inr_iff:
  "promiseAll inp = Inr (st, blocks, pc) \<longleftrightarrow>
     statsResult inp = Inr st \<and> blocksResult inp = Inr blocks \<and> countsResult inp = Inr pc"
proof
  assume ok: "statsResult inp = Inr st \<and> blocksResult inp = Inr blocks \<and> countsResult inp = Inr pc"
  then have "rejectionOf inp f = None" for f
    by (cases f) simp_all
  then have "firstRejection inp fs = None" for fs
    by (induction fs) simp_all
  with ok show "promiseAll inp = Inr (st, blocks, pc)"
    by (simp add: promiseAll_def)
next
  assume "promiseAll inp = Inr (st, blocks, pc)"
  then show "statsResult inp = Inr st \<and> blocksResult inp = Inr blocks \<and> countsResult inp = Inr pc"
    by (simp add: promiseAll_def split: option.splits sum.splits)
qed

lemma rejectionOf_reason:
  "rejectionOf inp f = Some err \<Longrightarrow>
     statsResult inp = Inl err \<or> blocksResult inp = Inl err \<or> countsResult inp = Inl err"
  by (cases f) (simp_all split: sum.splits)

lemma firstRejection_reason:
  "firstRejection inp fs = Some err \<Longrightarrow>
     statsResult inp = Inl err \<or> blocksResult inp = Inl err \<or> countsResult inp = Inl err"
  by (induction fs) (auto split: option.splits dest: rejectionOf_reason)

lemma promiseAll_Inl_reason:
  "promiseAll inp = Inl err \<Longrightarrow>
     statsResult inp = Inl err \<or> blocksResult inp = Inl err \<or> countsResult inp = Inl err"
  by (auto simp: promiseAll_def split: option.splits sum.splits dest: firstRejection_reason)

lemma promiseAll_rejects:
  assumes "isl (statsResult inp) \<or> isl (blocksResult inp) \<or> isl (countsResult inp)"
  shows "\<exists>err. promiseAll inp = Inl err"
proof (cases "promiseAll inp")
  case (Inl err)
  then show ?thesis by blast
next
  case (Inr r)
  obtain st blocks pc where "r = (st, blocks, pc)" by (cases r)
  with Inr have "statsResult inp = Inr st \<and> blocksResult inp = Inr blocks \<and> countsResult inp = Inr pc"
    by (simp add: promiseAll_Inr_iff)
  with assms show ?thesis by auto
qed

lemma takeSnapshot_rejected:
  "promiseAll inp = Inl err \<Longrightarrow> takeSnapshot e inp = (Inl err, e)"
  by (simp add: takeSnapshot_def)

lemma pointOf_fetched:
  "promiseAll inp = Inr (st, blocks, pc) \<Longrightarrow>
     pointOf inp = \<lparr>htimestamp = nowPush inp, htps = tps st,
                    txCount = totalTransactions (summarizeBlocks blocks),
                    hsuccessRate = successRate (summarizeBlocks blocks),
                    programCounts = pc\<rparr>"
  by (simp add: pointOf_def)

lemma takeSnapshot_fulfilled:
  assumes "promiseAll inp = Inr (st, blocks, pc)"
  shows "takeSnapshot e inp =
     (Inr \<lparr>timestamp = nowReturn inp, stats = st, topPrograms = rankPrograms pc,
           blockSummary = summarizeBlocks blocks,
           anomalies = detectAnomalies e st (summarizeBlocks blocks) (rankPrograms pc) pc (nowDetect inp)\<rparr>,
      \<lparr>history = pushHistory (history e) (pointOf inp),
       knownPrograms = trackPrograms (knownPrograms e) pc,
       baselineTps = updateBaseline (baselineTps e) (tps st)\<rparr>)"
  using assms by (simp add: takeSnapshot_def Let_def pointOf_fetched)

lemma completed_iff: "completed inp \<longleftrightarrow> (\<exists>st blocks pc. promiseAll inp = Inr (st, blocks, pc))"
  by (cases "promiseAll inp") (auto simp: completed_def)

lemma takeSnapshot_not_completed: "\<not> completed inp \<Longrightarrow> snd (takeSnapshot e inp) = e"
  by (cases "promiseAll inp") (auto simp: completed_def takeSnapshot_rejected)

lemma takeSnapshot_Inr_fetched:
  assumes "takeSnapshot e inp = (Inr snap, e')"
  obtains st blocks pc where "promiseAll inp = Inr (st, blocks, pc)"
proof (cases "promiseAll inp")
  case (Inl err)
  with assms show ?thesis by (simp add: takeSnapshot_rejected)
next
  case (Inr r)
  then show ?thesis using that by (cases r) auto
qed

text \<open>
  Claim C1. If any of the three fetches is rejected, \<open>takeSnapshot\<close> is rejected with the
  reason of one of the rejected fetches, unchanged; it returns no snapshot; and the engine
  (history, baseline, known identifiers) is the engine before the call.
\<close>

theorem takeSnapshot_fetch_failure:
  assumes "isl (statsResult inp) \<or> isl (blocksResult inp) \<or> isl (countsResult inp)"
  shows "\<exists>err. takeSnapshot e inp = (Inl err, e)
           \<and> (statsResult inp = Inl err \<or> blocksResult inp = Inl err \<or> countsResult inp = Inl err)"
proof -
  from promiseAll_rejects[OF assms] obtain err where err: "promiseAll inp = Inl err" ..
  have "takeSnapshot e inp = (Inl err, e)"
    using err by (rule takeSnapshot_rejected)
  moreover note promiseAll_Inl_reason[OF err]
  ultimately show ?thesis by blast
qed


theorem takeSnapshot_fetch_failure_witness:
  "(isl (statsResult rejectedInput) \<or> isl (blocksResult rejectedInput) \<or> isl (countsResult rejectedInput))
   \<and> takeSnapshot newEngine rejectedInput = (Inl (FetchError ''fetch failed''), newEngine)"
  using takeSnapshot_fetch_failure [of rejectedInput newEngine]
  by (auto simp: rejectedInput_def)

subsection \<open>Sequences of calls\<close>

lemma run_append: "run e (xs @ ys) = run (run e xs) ys"
  by (induction xs arbitrary: e) simp_all

lemma run_none_completed: "\<forall>i \<in> set inps. \<not> completed i \<Longrightarrow> run e inps = e"
  by (induction inps) (simp_all add: takeSnapshot_not_completed)

lemma fulfilled_completed [simp]: "completed (fulfilledInput t blocks pc)"
  by (simp add: completed_iff promiseAll_Inr_iff fulfilledInput_def)

lemma promiseAll_fulfilledInput [simp]:
  "promiseAll (fulfilledInput t blocks pc) = Inr (statsAt t, blocks, pc)"
  by (simp add: promiseAll_Inr_iff fulfilledInput_def)

subsection \<open>Baseline tracker\<close>

lemma baseline_after_call:
  "promiseAll inp = Inr (st, blocks, pc) \<Longrightarrow>
     baselineTps (snd (takeSnapshot e inp)) = updateBaseline (baselineTps e) (tps st)"
  by (simp add: takeSnapshot_fulfilled)

lemma baseline_stays: "baselineTps e \<noteq> None \<Longrightarrow> baselineTps (snd (takeSnapshot e inp)) \<noteq> None"
  by (cases "promiseAll inp")
     (auto simp: takeSnapshot_rejected takeSnapshot_fulfilled updateBaseline_def split: option.splits)

lemma baseline_stays_run: "baselineTps e \<noteq> None \<Longrightarrow> baselineTps (run e inps) \<noteq> None"
proof (induction inps arbitrary: e)
  case Nil
  then show ?case by simp
next
  case (Cons inp inps)
  have "baselineTps (run (snd (takeSnapshot e inp)) inps) \<noteq> None"
    by (rule Cons.IH) (rule baseline_stays, rule Cons.prems)
  then show ?case by simp
qed

text \<open>
  Claim C4. A completed call on an engine without a baseline sets the baseline to the
  observed TPS; so does the first call that completes on a new engine. A completed call on
  an engine with baseline \<open>b\<close> sets it to \<open>b * 0.9 + observed * 0.1\<close>: from baseline 100
  and observed 200 to 110. A baseline that is set stays set through every later call,
  completed or rejected.
\<close>

theorem baseline_tracker:
  "(promiseAll inp = Inr (st, blocks, pc) \<and> baselineTps e = None \<longrightarrow>
      baselineTps (snd (takeSnapshot e inp)) = Some (tps st))
   \<and> (promiseAll inp = Inr (st, blocks, pc) \<and> (\<forall>i \<in> set earlier. \<not> completed i) \<longrightarrow>
      baselineTps (run newEngine (earlier @ [inp])) = Some (tps st))
   \<and> (promiseAll inp = Inr (st, blocks, pc) \<and> baselineTps e = Some b \<longrightarrow>
      baselineTps (snd (takeSnapshot e inp)) = Some (b * 0.9 + tps st * 0.1))
   \<and> (promiseAll inp = Inr (st, blocks, pc) \<and> baselineTps e = Some 100 \<and> tps st = 200 \<longrightarrow>
      baselineTps (snd (takeSnapshot e inp)) = Some 110)
   \<and> (baselineTps e \<noteq> None \<longrightarrow> baselineTps (run e later) \<noteq> None)"
proof (intro conjI impI)
  assume "promiseAll inp = Inr (st, blocks, pc) \<and> baselineTps e = None"
  then show "baselineTps (snd (takeSnapshot e inp)) = Some (tps st)"
    by (simp add: baseline_after_call updateBaseline_def)
next
  assume a: "promiseAll inp = Inr (st, blocks, pc) \<and> (\<forall>i \<in> set earlier. \<not> completed i)"
  then have "run newEngine earlier = newEngine"
    by (simp add: run_none_completed)
  with a show "baselineTps (run newEngine (earlier @ [inp])) = Some (tps st)"
    by (simp add: run_append baseline_after_call updateBaseline_def newEngine_def)
next
  assume "promiseAll inp = Inr (st, blocks, pc) \<and> baselineTps e = Some b"
  then show "baselineTps (snd (takeSnapshot e inp)) = Some (b * 0.9 + tps st * 0.1)"
    by (simp add: baseline_after_call updateBaseline_def)
next
  assume "promiseAll inp = Inr (st, blocks, pc) \<and> baselineTps e = Some 100 \<and> tps st = 200"
  then show "baselineTps (snd (takeSnapshot e inp)) = Some 110"
    by (simp add: baseline_after_call updateBaseline_def)
next
  assume "baselineTps e \<noteq> None"
  then show "baselineTps (run e later) \<noteq> None"
    by (rule baseline_stays_run)
qed

theorem baseline_tracker_witness:
  "promiseAll (fulfilledInput 200 [] []) = Inr (statsAt 200, [], [])
   \<and> baselineTps (snd (takeSnapshot newEngine (fulfilledInput 50 [] []))) = Some 50
   \<and> \<not> completed rejectedInput
   \<and> baselineTps (run newEngine ([rejectedInput] @ [fulfilledInput 200 [] []])) = Some 200
   \<and> baselineTps (newEngine\<lparr>baselineTps := Some 100\<rparr>) = Some 100 \<and> tps (statsAt 200) = 200
   \<and> baselineTps (snd (takeSnapshot (newEngine\<lparr>baselineTps := Some 100\<rparr>) (fulfilledInput 200 [] [])))
       = Some 110
   \<and> baselineTps (run (newEngine\<lparr>baselineTps := Some 100\<rparr>) [rejectedInput, fulfilledInput 200 [] []])
       \<noteq> None"
  using baseline_tracker [of "fulfilledInput 50 [] []" "statsAt 50" "[]" "[]" newEngine "[]" 0 "[]"]
        baseline_tracker [of "fulfilledInput 200 [] []" "statsAt 200" "[]" "[]"
                             "newEngine\<lparr>baselineTps := Some 100\<rparr>" "[rejectedInput]" 100
                             "[rejectedInput, fulfilledInput 200 [] []]"]
  by (simp add: newEngine_def statsAt_def completed_iff promiseAll_Inr_iff rejectedInput_def)

subsection \<open>History ring\<close>

lemma pushHistory_eq:
  "length h \<le> 100 \<Longrightarrow>
     pushHistory h p = (if length h = 100 then tl h else h) @ [p]"
  by (cases h) (auto simp: pushHistory_def maxHistoryLength_def Let_def)

lemma pushHistory_drop:
  "length h \<le> 100 \<Longrightarrow> pushHistory h p = drop (length (h @ [p]) - 100) (h @ [p])"
proof (cases "length h = 100")
  case True
  then have "h \<noteq> []" by auto
  then have "tl (h @ [p]) = drop 1 (h @ [p])"
    by (cases h) (simp_all add: drop_Suc)
  with True show ?thesis
    by (simp add: pushHistory_def maxHistoryLength_def Let_def)
next
  case False
  moreover assume "length h \<le> 100"
  ultimately show ?thesis
    by (simp add: pushHistory_def maxHistoryLength_def Let_def)
qed

lemma length_pushHistory: "length h \<le> 100 \<Longrightarrow> length (pushHistory h p) \<le> 100"
  by (simp add: pushHistory_drop)

lemma history_after_call:
  "completed inp \<Longrightarrow> history (snd (takeSnapshot e inp)) = pushHistory (history e) (pointOf inp)"
  by (auto simp: completed_iff takeSnapshot_fulfilled)

lemma drop_window:
  "drop (length (drop (length xs - n) xs @ ys) - n) (drop (length xs - n) xs @ ys) =
     drop (length (xs @ ys) - n) (xs @ ys)"
proof (cases "length xs \<le> n")
  case True
  then show ?thesis by simp
next
  case False
  then have "drop (length xs - n) xs @ ys = drop (length xs - n) (xs @ ys)"
    by simp
  moreover from False have "length xs - n + (length (xs @ ys) - (length xs - n) - n) = length (xs @ ys) - n"
    by simp
  ultimately show ?thesis
    by (simp only: drop_drop length_drop add.commute)
qed

lemma history_run:
  "length (history e) \<le> 100 \<Longrightarrow>
     history (run e inps) =
       drop (length (history e @ map pointOf (filter completed inps)) - 100)
            (history e @ map pointOf (filter completed inps))"
proof (induction inps arbitrary: e)
  case Nil
  then show ?case by simp
next
  case (Cons inp inps)
  show ?case
  proof (cases "completed inp")
    case False
    then have "snd (takeSnapshot e inp) = e"
      by (rule takeSnapshot_not_completed)
    with False Cons show ?thesis by simp
  next
    case True
    let ?e1 = "snd (takeSnapshot e inp)"
    let ?pts = "map pointOf (filter completed inps)"
    have h1: "history ?e1 = drop (length (history e @ [pointOf inp]) - 100) (history e @ [pointOf inp])"
      using True Cons.prems by (simp add: history_after_call pushHistory_drop)
    have "length (history ?e1) \<le> 100"
      using True Cons.prems by (simp add: history_after_call length_pushHistory)
    then have "history (run ?e1 inps) = drop (length (history ?e1 @ ?pts) - 100) (history ?e1 @ ?pts)"
      by (rule Cons.IH)
    also have "\<dots> = drop (length ((history e @ [pointOf inp]) @ ?pts) - 100) ((history e @ [pointOf inp]) @ ?pts)"
      unfolding h1 by (rule drop_window)
    finally show ?thesis using True by simp
  qed
qed

text \<open>
  Claim C5. After every sequence of calls on a new engine, the history holds the entries
  of the calls that completed, one per call and in call order, cut to the last 100: it
  never holds more than 100 entries, and the entries dropped are the oldest. Each completed
  call on a history of at most 100 entries appends its entry at the end, after dropping
  the first (oldest) entry when the history was full.
\<close>

theorem history_ring_fifo:
  "history (run newEngine inps) =
     drop (length (filter completed inps) - 100) (map pointOf (filter completed inps))
   \<and> length (history (run newEngine inps)) \<le> 100
   \<and> (completed inp \<and> length (history e) \<le> 100 \<longrightarrow>
        history (snd (takeSnapshot e inp)) =
          (if length (history e) = 100 then tl (history e) else history e) @ [pointOf inp])"
proof (intro conjI impI)
  have "length (history newEngine) \<le> 100"
    by (simp add: newEngine_def)
  from history_run[OF this, of inps]
  show eq: "history (run newEngine inps) =
     drop (length (filter completed inps) - 100) (map pointOf (filter completed inps))"
    by (simp add: newEngine_def)
  show "length (history (run newEngine inps)) \<le> 100"
    unfolding eq by simp
next
  assume "completed inp \<and> length (history e) \<le> 100"
  then show "history (snd (takeSnapshot e inp)) =
          (if length (history e) = 100 then tl (history e) else history e) @ [pointOf inp]"
    by (simp only: history_after_call pushHistory_eq)
qed

theorem history_ring_fifo_witness:
  "length (history (run newEngine (map (\<lambda>n. fulfilledInput (real n) [] []) [0..<150]))) = 100
   \<and> map htps (history (run newEngine (map (\<lambda>n. fulfilledInput (real n) [] []) [0..<150])))
       = map real [50..<150]
   \<and> completed (fulfilledInput 7 [] []) \<and> length (history newEngine) \<le> 100
   \<and> history (snd (takeSnapshot newEngine (fulfilledInput 7 [] []))) = [pointOf (fulfilledInput 7 [] [])]"
  using history_ring_fifo [of "map (\<lambda>n. fulfilledInput (real n) [] []) [0..<150]"
                               "fulfilledInput 7 [] []" newEngine]
  by (simp add: filter_map comp_def drop_map pointOf_def statsAt_def newEngine_def)

section \<open>Properties of the anomaly rules\<close>

lemma anomaliesOf_append: "anomaliesOf ty (xs @ ys) = anomaliesOf ty xs @ anomaliesOf ty ys"
  by (simp add: anomaliesOf_def)

lemma anomaliesAbout_append:
  "anomaliesAbout ty pid (xs @ ys) = anomaliesAbout ty pid xs @ anomaliesAbout ty pid ys"
  by (simp add: anomaliesAbout_def)

lemma anomaliesOf_other:
  "\<forall>a \<in> set xs. atype a \<noteq> ty \<Longrightarrow> anomaliesOf ty xs = []"
  by (simp add: anomaliesOf_def)

lemma anomaliesAbout_other:
  "\<forall>a \<in> set xs. atype a \<noteq> ty \<Longrightarrow> anomaliesAbout ty pid xs = []"
  by (simp add: anomaliesAbout_def)

lemma anomaliesAbout_subset: "set (anomaliesAbout ty pid xs) \<subseteq> set (anomaliesOf ty xs)"
  by (auto simp: anomaliesAbout_def anomaliesOf_def)

lemma atype_highFailureRule: "\<forall>a \<in> set (highFailureRule bs now). atype a = high_failure_rate"
  by (simp add: highFailureRule_def)

lemma atype_tpsRule: "\<forall>a \<in> set (tpsRule baseline st now). atype a = tps_spike \<or> atype a = tps_drop"
  by (auto simp: tpsRule_def Let_def split: option.splits if_splits)

lemma atype_largeBlockRule: "\<forall>a \<in> set (largeBlockRule bs now). atype a = large_block"
  by (simp add: largeBlockRule_def)

lemma atype_emptyBlockRule: "\<forall>a \<in> set (emptyBlockRule bs now). atype a = empty_block"
  by (simp add: emptyBlockRule_def)

lemma atype_newProgramRule: "\<forall>a \<in> set (newProgramRule e pc now). atype a = new_program_detected"
  by (auto simp: newProgramRule_def newProgramCheck_def Let_def split: if_splits)

lemma atype_programSurgeRule: "\<forall>a \<in> set (programSurgeRule e pc now). atype a = program_surge"
  by (auto simp: programSurgeRule_def Let_def split: if_splits)




lemma snapshot_of_call:
  assumes "takeSnapshot e inp = (Inr snap, e')"
  obtains st blocks pc where
    "promiseAll inp = Inr (st, blocks, pc)"
    "stats snap = st"
    "anomalies snap =
       detectAnomalies e st (summarizeBlocks blocks) (rankPrograms pc) pc (nowDetect inp)"
proof -
  from assms obtain st blocks pc where f: "promiseAll inp = Inr (st, blocks, pc)"
    by (rule takeSnapshot_Inr_fetched)
  with assms have "snap = \<lparr>timestamp = nowReturn inp, stats = st, topPrograms = rankPrograms pc,
           blockSummary = summarizeBlocks blocks,
           anomalies = detectAnomalies e st (summarizeBlocks blocks) (rankPrograms pc) pc (nowDetect inp)\<rparr>"
    by (simp add: takeSnapshot_fulfilled)
  then show ?thesis using f that by simp
qed



subsection \<open>Engines reached by completed calls\<close>

lemma trackPrograms_eq: "trackPrograms known pc = known \<union> fst ` set pc"
proof -
  have "foldl (\<lambda>s pid. insert pid s) known ks = known \<union> set ks" for ks
    by (induction ks arbitrary: known) auto
  then show ?thesis by (simp add: trackPrograms_def)
qed

lemma known_after_call:
  "completed inp \<Longrightarrow>
     knownPrograms (snd (takeSnapshot e inp)) =
       knownPrograms e \<union> fst ` set (programCounts (pointOf inp))"
proof -
  assume "completed inp"
  then obtain st blocks pc where f: "promiseAll inp = Inr (st, blocks, pc)"
    by (auto simp: completed_iff)
  show ?thesis
    by (simp add: takeSnapshot_fulfilled [OF f] trackPrograms_eq pointOf_fetched [OF f])
qed

lemma known_run:
  "knownPrograms (run e inps) =
     knownPrograms e \<union> (\<Union>i \<in> set (filter completed inps). fst ` set (programCounts (pointOf i)))"
proof (induction inps arbitrary: e)
  case Nil
  then show ?case by simp
next
  case (Cons inp inps)
  show ?case
  proof (cases "completed inp")
    case True
    then show ?thesis
      by (simp add: Cons.IH known_after_call Un_assoc)
  next
    case False
    then show ?thesis
      by (simp add: Cons.IH takeSnapshot_not_completed)
  qed
qed

lemma pointOf_fulfilledInput:
  "pointOf (fulfilledInput t blocks pc) =
     \<lparr>htimestamp = 1000, htps = t, txCount = totalTransactions (summarizeBlocks blocks),
      hsuccessRate = successRate (summarizeBlocks blocks), programCounts = pc\<rparr>"
  unfolding pointOf_fetched [OF promiseAll_fulfilledInput]
  by (simp add: statsAt_def fulfilledInput_def)

lemma history_exampleEngine:
  "history (exampleEngine pcs) =
     drop (length pcs - 100) (map (\<lambda>pc. pointOf (fulfilledInput 100 [] pc)) pcs)"
proof -
  have "filter completed (map (fulfilledInput 100 []) pcs) = map (fulfilledInput 100 []) pcs"
    by (induction pcs) simp_all
  moreover have "length (history newEngine) \<le> 100"
    by (simp add: newEngine_def)
  ultimately show ?thesis
    unfolding exampleEngine_def
    by (simp add: history_run newEngine_def comp_def)
qed

lemma known_exampleEngine:
  "knownPrograms (exampleEngine pcs) = fst ` set (concat pcs)"
proof -
  have "filter completed (map (fulfilledInput 100 []) pcs) = map (fulfilledInput 100 []) pcs"
    by (induction pcs) simp_all
  then show ?thesis
    unfolding exampleEngine_def
    by (auto simp: known_run newEngine_def pointOf_fulfilledInput)
qed

subsection \<open>Program surge\<close>

lemma anomaliesAbout_detect_surge:
  "anomaliesAbout program_surge pid (detectAnomalies e st bs ranked pc now) =
     anomaliesAbout program_surge pid (programSurgeRule e pc now)"
proof -
  have "anomaliesAbout program_surge pid (highFailureRule bs now) = []"
    by (rule anomaliesAbout_other) (use atype_highFailureRule in auto)
  moreover have "anomaliesAbout program_surge pid (tpsRule (baselineTps e) st now) = []"
    by (rule anomaliesAbout_other) (use atype_tpsRule in fastforce)
  moreover have "anomaliesAbout program_surge pid (largeBlockRule bs now) = []"
    by (rule anomaliesAbout_other) (use atype_largeBlockRule in auto)
  moreover have "anomaliesAbout program_surge pid (emptyBlockRule bs now) = []"
    by (rule anomaliesAbout_other) (use atype_emptyBlockRule in auto)
  moreover have "anomaliesAbout program_surge pid (newProgramRule e pc now) = []"
    by (rule anomaliesAbout_other) (use atype_newProgramRule in auto)
  ultimately show ?thesis
    by (simp add: detectAnomalies_def anomaliesAbout_append)
qed

lemma anomaliesOf_detect_surge:
  "anomaliesOf program_surge (detectAnomalies e st bs ranked pc now) = programSurgeRule e pc now"
proof -
  have "anomaliesOf program_surge (highFailureRule bs now) = []"
    by (rule anomaliesOf_other) (use atype_highFailureRule in auto)
  moreover have "anomaliesOf program_surge (tpsRule (baselineTps e) st now) = []"
    by (rule anomaliesOf_other) (use atype_tpsRule in fastforce)
  moreover have "anomaliesOf program_surge (largeBlockRule bs now) = []"
    by (rule anomaliesOf_other) (use atype_largeBlockRule in auto)
  moreover have "anomaliesOf program_surge (emptyBlockRule bs now) = []"
    by (rule anomaliesOf_other) (use atype_emptyBlockRule in auto)
  moreover have "anomaliesOf program_surge (newProgramRule e pc now) = []"
    by (rule anomaliesOf_other) (use atype_newProgramRule in auto)
  moreover have "anomaliesOf program_surge (programSurgeRule e pc now) = programSurgeRule e pc now"
    unfolding anomaliesOf_def by (rule filter_True) (use atype_programSurgeRule in auto)
  ultimately show ?thesis
    by (simp add: detectAnomalies_def anomaliesOf_append)
qed

lemma anomaliesAbout_Nil: "anomaliesAbout ty pid [] = []"
  by (simp add: anomaliesAbout_def)

lemma about_surgeCheck:
  "anomaliesAbout program_surge pid (surgeCheck l now (p, c)) =
     (if p = pid then surgeCheck l now (p, c) else [])"
  by (simp add: anomaliesAbout_def Let_def)

lemma about_surge_absent:
  "pid \<notin> fst ` set pc \<Longrightarrow> anomaliesAbout program_surge pid (concat (map (surgeCheck l now) pc)) = []"
proof (induction pc)
  case Nil
  then show ?case by (simp add: anomaliesAbout_def)
next
  case (Cons x pc)
  obtain p c where x: "x = (p, c)" by (cases x)
  from Cons.prems x have "p \<noteq> pid" and "pid \<notin> fst ` set pc" by auto
  with Cons.IH x show ?case
    by (simp add: anomaliesAbout_append about_surgeCheck del: surgeCheck.simps)
qed

lemma about_surge_loop:
  "distinct (map fst pc) \<Longrightarrow>
     anomaliesAbout program_surge pid (concat (map (surgeCheck l now) pc)) =
       (case map_of pc pid of None \<Rightarrow> [] | Some c \<Rightarrow> surgeCheck l now (pid, c))"
proof (induction pc)
  case Nil
  then show ?case by (simp add: anomaliesAbout_def)
next
  case (Cons x pc)
  obtain p c where x: "x = (p, c)" by (cases x)
  show ?case
  proof (cases "p = pid")
    case True
    with Cons.prems x have "pid \<notin> fst ` set pc" by simp
    then have "anomaliesAbout program_surge pid (concat (map (surgeCheck l now) pc)) = []"
      by (rule about_surge_absent)
    with True x show ?thesis
      by (simp add: anomaliesAbout_append about_surgeCheck del: surgeCheck.simps)
  next
    case False
    with Cons x show ?thesis
      by (simp add: anomaliesAbout_append about_surgeCheck del: surgeCheck.simps)
  qed
qed

lemma length_surgeCheck:
  "length (surgeCheck l now (pid, c)) =
     (if 5 < prevCountOf l pid \<and> prevCountOf l pid * 3 < c then 1 else 0)"
  by (simp add: Let_def)

lemma surge_members:
  assumes "a \<in> set (concat (map (surgeCheck l now) pc))"
  shows "\<exists>pid c. (pid, c) \<in> set pc \<and> 5 < prevCountOf l pid \<and> prevCountOf l pid * 3 < c
           \<and> anomalyProgram a = Some pid \<and> data a = SurgeData pid (prevCountOf l pid) c
           \<and> severity a = (if prevCountOf l pid * 10 < c then High else Medium)"
proof -
  from assms obtain x where x: "x \<in> set pc" "a \<in> set (surgeCheck l now x)" by auto
  obtain pid c where "x = (pid, c)" by (cases x)
  with x show ?thesis
    by (intro exI[of _ pid] exI[of _ c]) (auto simp: Let_def split: if_splits)
qed

text \<open>
  Claim C7. In the anomaly list of a snapshot, with \<open>e\<close> the engine before the call and
  \<open>pc\<close> the fetched invocation counts (a map: its keys are distinct), the previous count
  of an identifier is its count in the invocation counts of the last entry of the history
  of \<open>e\<close>, and 0 when it is not a key there; no other history entry is read. The number of
  \<open>program_surge\<close> anomalies about an identifier is 1 when the history of \<open>e\<close> has more
  than 2 entries, the identifier has a current count, its previous count exceeds 5, and
  the current count exceeds 3 times the previous count; it is 0 otherwise. Every
  \<open>program_surge\<close> anomaly is about such an identifier, with severity high when the
  current count exceeds 10 times the previous count and medium otherwise. A previous
  count of 10 and a current count of 35 give an anomaly of medium severity; a previous
  count of at most 5 gives none, whatever the current count.
\<close>

theorem program_surge_anomalies:
  assumes "takeSnapshot e inp = (Inr snap, e')" and "countsResult inp = Inr pc"
    and "distinct (map fst pc)"
  shows "length (anomaliesAbout program_surge pid (anomalies snap)) =
           (if 2 < length (history e)
               \<and> (\<exists>c. map_of pc pid = Some c
                        \<and> 5 < (case map_of (programCounts (last (history e))) pid of None \<Rightarrow> 0 | Some n \<Rightarrow> n)
                        \<and> (case map_of (programCounts (last (history e))) pid of None \<Rightarrow> 0 | Some n \<Rightarrow> n) * 3 < c)
            then 1 else 0)
       \<and> (\<forall>a \<in> set (anomaliesOf program_surge (anomalies snap)).
             \<exists>p c. map_of pc p = Some c \<and> anomalyProgram a = Some p
                   \<and> data a = SurgeData p (case map_of (programCounts (last (history e))) p of None \<Rightarrow> 0 | Some n \<Rightarrow> n) c
                   \<and> severity a =
                       (if (case map_of (programCounts (last (history e))) p of None \<Rightarrow> 0 | Some n \<Rightarrow> n) * 10 < c then High else Medium))
       \<and> (2 < length (history e) \<and> map_of (programCounts (last (history e))) pid = Some 10
            \<and> map_of pc pid = Some 35 \<longrightarrow>
             (\<exists>a \<in> set (anomaliesAbout program_surge pid (anomalies snap)). severity a = Medium))
       \<and> ((case map_of (programCounts (last (history e))) pid of None \<Rightarrow> 0 | Some n \<Rightarrow> n) \<le> 5 \<longrightarrow>
             anomaliesAbout program_surge pid (anomalies snap) = [])"
proof -
  from assms(1) obtain st blocks pc' where
    f: "promiseAll inp = Inr (st, blocks, pc')" and
    an: "anomalies snap =
       detectAnomalies e st (summarizeBlocks blocks) (rankPrograms pc') pc' (nowDetect inp)"
    by (rule snapshot_of_call)
  from f assms(2) have pc: "pc' = pc"
    by (simp add: promiseAll_Inr_iff)
  let ?l = "last (history e)"
  let ?now = "nowDetect inp"
  have about: "anomaliesAbout program_surge pid (anomalies snap) =
      (if 2 < length (history e)
       then (case map_of pc pid of None \<Rightarrow> [] | Some c \<Rightarrow> surgeCheck ?l ?now (pid, c))
       else [])"
    using assms(3)
    by (simp add: an pc anomaliesAbout_detect_surge programSurgeRule_def about_surge_loop
        anomaliesAbout_Nil del: surgeCheck.simps)
  have all: "anomaliesOf program_surge (anomalies snap) =
      (if 2 < length (history e) then concat (map (surgeCheck ?l ?now) pc) else [])"
    by (simp add: an pc anomaliesOf_detect_surge programSurgeRule_def)
  have c1: "length (anomaliesAbout program_surge pid (anomalies snap)) =
           (if 2 < length (history e)
               \<and> (\<exists>c. map_of pc pid = Some c \<and> 5 < prevCountOf ?l pid
                        \<and> prevCountOf ?l pid * 3 < c)
            then 1 else 0)"
    unfolding about
    by (cases "map_of pc pid") (simp_all add: Let_def)
  have c2: "\<exists>p c. map_of pc p = Some c \<and> anomalyProgram a = Some p
                   \<and> data a = SurgeData p (prevCountOf ?l p) c
                   \<and> severity a = (if prevCountOf ?l p * 10 < c then High else Medium)"
    if "a \<in> set (anomaliesOf program_surge (anomalies snap))" for a
  proof -
    from that have "a \<in> set (concat (map (surgeCheck ?l ?now) pc))"
      unfolding all by (simp split: if_splits)
    from surge_members[OF this] obtain p c where
      "(p, c) \<in> set pc" "anomalyProgram a = Some p" "data a = SurgeData p (prevCountOf ?l p) c"
      "severity a = (if prevCountOf ?l p * 10 < c then High else Medium)"
      by blast
    moreover from this(1) assms(3) have "map_of pc p = Some c" by simp
    ultimately show ?thesis by blast
  qed
  have c3: "\<exists>a \<in> set (anomaliesAbout program_surge pid (anomalies snap)). severity a = Medium"
    if "2 < length (history e) \<and> map_of (programCounts ?l) pid = Some 10
          \<and> map_of pc pid = Some 35"
    unfolding about using that by (simp add: Let_def prevCountOf_def)
  have c4: "anomaliesAbout program_surge pid (anomalies snap) = []"
    if "prevCountOf ?l pid \<le> 5"
    unfolding about using that by (simp add: Let_def split: option.splits)
  from c1 [unfolded prevCountOf_def] c2 [unfolded prevCountOf_def] c3
       c4 [unfolded prevCountOf_def]
  show ?thesis by blast
qed

theorem program_surge_anomalies_witness:
  "takeSnapshot
       (exampleEngine [[(''W'', 50)], [(''W'', 50)], [(''X'', 7), (''Z'', 10), (''V'', 6)]])
       (fulfilledInput 100 [] [(''X'', 22), (''Z'', 35), (''W'', 200), (''V'', 61)]) =
     (Inr \<lparr>timestamp = 1000, stats = statsAt 100,
           topPrograms = rankPrograms [(''X'', 22), (''Z'', 35), (''W'', 200), (''V'', 61)],
           blockSummary = summarizeBlocks [],
           anomalies = [surgeAnomaly ''X'' 7 22 Medium, surgeAnomaly ''Z'' 10 35 Medium,
                        surgeAnomaly ''V'' 6 61 High]\<rparr>,
      snd (takeSnapshot
             (exampleEngine [[(''W'', 50)], [(''W'', 50)], [(''X'', 7), (''Z'', 10), (''V'', 6)]])
             (fulfilledInput 100 [] [(''X'', 22), (''Z'', 35), (''W'', 200), (''V'', 61)])))
   \<and> countsResult (fulfilledInput 100 [] [(''X'', 22), (''Z'', 35), (''W'', 200), (''V'', 61)])
       = Inr [(''X'', 22), (''Z'', 35), (''W'', 200), (''V'', 61)]
   \<and> distinct (map fst [(''X'', 22::nat), (''Z'', 35), (''W'', 200), (''V'', 61)])
   \<and> programCounts (last (history
         (exampleEngine [[(''W'', 50)], [(''W'', 50)], [(''X'', 7), (''Z'', 10), (''V'', 6)]])))
       = [(''X'', 7), (''Z'', 10), (''V'', 6)]
   \<and> length (history
         (exampleEngine [[(''W'', 50)], [(''W'', 50)], [(''X'', 7), (''Z'', 10), (''V'', 6)]])) = 3
   \<and> length (anomaliesAbout program_surge ''X''
         [surgeAnomaly ''X'' 7 22 Medium, surgeAnomaly ''Z'' 10 35 Medium,
          surgeAnomaly ''V'' 6 61 High]) = 1
   \<and> length (anomaliesAbout program_surge ''W''
         [surgeAnomaly ''X'' 7 22 Medium, surgeAnomaly ''Z'' 10 35 Medium,
          surgeAnomaly ''V'' 6 61 High]) = 0
   \<and> anomaliesAbout program_surge ''Z''
         [surgeAnomaly ''X'' 7 22 Medium, surgeAnomaly ''Z'' 10 35 Medium,
          surgeAnomaly ''V'' 6 61 High] = [surgeAnomaly ''Z'' 10 35 Medium]"
proof -
  let ?e = "exampleEngine [[(''W'', 50)], [(''W'', 50)], [(''X'', 7), (''Z'', 10), (''V'', 6)]]"
  let ?pc = "[(''X'', 22::nat), (''Z'', 35), (''W'', 200), (''V'', 61)]"
  let ?inp = "fulfilledInput 100 [] ?pc"
  let ?p = "\<lambda>pc. \<lparr>htimestamp = 1000, htps = 100, txCount = 0, hsuccessRate = 0,
                  programCounts = pc\<rparr>"
  let ?as = "[surgeAnomaly ''X'' 7 22 Medium, surgeAnomaly ''Z'' 10 35 Medium,
              surgeAnomaly ''V'' 6 61 High]"
  let ?snap = "\<lparr>timestamp = 1000, stats = statsAt 100, topPrograms = rankPrograms ?pc,
                blockSummary = summarizeBlocks [], anomalies = ?as\<rparr>"
  have h: "history ?e = [?p [(''W'', 50)], ?p [(''W'', 50)], ?p [(''X'', 7), (''Z'', 10), (''V'', 6)]]"
    by (simp add: history_exampleEngine pointOf_fulfilledInput summarizeBlocks_def)
  have b: "baselineTps ?e = Some 100"
    by (simp add: exampleEngine_def takeSnapshot_fulfilled [OF promiseAll_fulfilledInput]
        updateBaseline_def newEngine_def statsAt_def)
  have call: "takeSnapshot ?e ?inp = (Inr ?snap, snd (takeSnapshot ?e ?inp))"
    unfolding takeSnapshot_fulfilled [OF promiseAll_fulfilledInput]
    by (simp add: h b detectAnomalies_def highFailureRule_def tpsRule_def largeBlockRule_def
        emptyBlockRule_def newProgramRule_def programSurgeRule_def summarizeBlocks_def
        prevCountOf_def statsAt_def fulfilledInput_def surgeAnomaly_def Let_def)
  have c: "countsResult ?inp = Inr ?pc"
    by (simp add: fulfilledInput_def)
  have d: "distinct (map fst ?pc)" by simp
  have l: "programCounts (last (history ?e)) = [(''X'', 7), (''Z'', 10), (''V'', 6)]"
    "length (history ?e) = 3"
    by (simp_all add: h)
  have z: "anomaliesAbout program_surge ''Z'' ?as = [surgeAnomaly ''Z'' 10 35 Medium]"
    by (simp add: anomaliesAbout_def surgeAnomaly_def)
  from program_surge_anomalies [OF call c d, of "''X''"]
       program_surge_anomalies [OF call c d, of "''W''"]
  have "length (anomaliesAbout program_surge ''X'' ?as) = 1"
    and "length (anomaliesAbout program_surge ''W'' ?as) = 0"
    by (simp_all add: l)
  with call c d l z show ?thesis
    by (intro conjI)
qed

subsection \<open>New programs\<close>

lemma anomaliesAbout_detect_new:
  "anomaliesAbout new_program_detected pid (detectAnomalies e st bs ranked pc now) =
     anomaliesAbout new_program_detected pid (newProgramRule e pc now)"
proof -
  have "anomaliesAbout new_program_detected pid (highFailureRule bs now) = []"
    by (rule anomaliesAbout_other) (use atype_highFailureRule in auto)
  moreover have "anomaliesAbout new_program_detected pid (tpsRule (baselineTps e) st now) = []"
    by (rule anomaliesAbout_other) (use atype_tpsRule in fastforce)
  moreover have "anomaliesAbout new_program_detected pid (largeBlockRule bs now) = []"
    by (rule anomaliesAbout_other) (use atype_largeBlockRule in auto)
  moreover have "anomaliesAbout new_program_detected pid (emptyBlockRule bs now) = []"
    by (rule anomaliesAbout_other) (use atype_emptyBlockRule in auto)
  moreover have "anomaliesAbout new_program_detected pid (programSurgeRule e pc now) = []"
    by (rule anomaliesAbout_other) (use atype_programSurgeRule in auto)
  ultimately show ?thesis
    by (simp add: detectAnomalies_def anomaliesAbout_append)
qed

lemma anomaliesOf_detect_new:
  "anomaliesOf new_program_detected (detectAnomalies e st bs ranked pc now) =
     newProgramRule e pc now"
proof -
  have "anomaliesOf new_program_detected (highFailureRule bs now) = []"
    by (rule anomaliesOf_other) (use atype_highFailureRule in auto)
  moreover have "anomaliesOf new_program_detected (tpsRule (baselineTps e) st now) = []"
    by (rule anomaliesOf_other) (use atype_tpsRule in fastforce)
  moreover have "anomaliesOf new_program_detected (largeBlockRule bs now) = []"
    by (rule anomaliesOf_other) (use atype_largeBlockRule in auto)
  moreover have "anomaliesOf new_program_detected (emptyBlockRule bs now) = []"
    by (rule anomaliesOf_other) (use atype_emptyBlockRule in auto)
  moreover have "anomaliesOf new_program_detected (programSurgeRule e pc now) = []"
    by (rule anomaliesOf_other) (use atype_programSurgeRule in auto)
  moreover have "anomaliesOf new_program_detected (newProgramRule e pc now) = newProgramRule e pc now"
    unfolding anomaliesOf_def by (rule filter_True) (use atype_newProgramRule in auto)
  ultimately show ?thesis
    by (simp add: detectAnomalies_def anomaliesOf_append)
qed

lemma about_newProgramCheck:
  "anomaliesAbout new_program_detected pid (newProgramCheck previous known pc now p) =
     (if p = pid then newProgramCheck previous known pc now p else [])"
  by (simp add: anomaliesAbout_def newProgramCheck_def)

lemma about_new_absent:
  "pid \<notin> set ks \<Longrightarrow>
     anomaliesAbout new_program_detected pid
       (concat (map (newProgramCheck previous known pc now) ks)) = []"
proof (induction ks)
  case Nil
  then show ?case by (simp add: anomaliesAbout_Nil)
next
  case (Cons k ks)
  then have "k \<noteq> pid" and "pid \<notin> set ks" by auto
  with Cons.IH show ?case
    by (simp add: anomaliesAbout_append about_newProgramCheck)
qed

lemma about_new_loop:
  "distinct ks \<Longrightarrow>
     anomaliesAbout new_program_detected pid
       (concat (map (newProgramCheck previous known pc now) ks)) =
     (if pid \<in> set ks then newProgramCheck previous known pc now pid else [])"
proof (induction ks)
  case Nil
  then show ?case by (simp add: anomaliesAbout_Nil)
next
  case (Cons k ks)
  show ?case
  proof (cases "k = pid")
    case True
    with Cons.prems have "pid \<notin> set ks" by simp
    then have "anomaliesAbout new_program_detected pid
       (concat (map (newProgramCheck previous known pc now) ks)) = []"
      by (rule about_new_absent)
    with True show ?thesis
      by (simp add: anomaliesAbout_append about_newProgramCheck)
  next
    case False
    with Cons show ?thesis
      by (simp add: anomaliesAbout_append about_newProgramCheck)
  qed
qed

lemma new_members:
  assumes "a \<in> set (newProgramRule e pc now)"
  shows "severity a = Low \<and> (\<exists>p \<in> fst ` set pc. anomalyProgram a = Some p)"
proof -
  from assms obtain k where "k \<in> set (map fst pc)"
    "a \<in> set (newProgramCheck (previousPrograms (history e)) (knownPrograms e) pc now k)"
    by (auto simp: newProgramRule_def Let_def split: if_splits)
  then show ?thesis
    by (auto simp: newProgramCheck_def split: if_splits)
qed

lemma previousPrograms_eq:
  "previousPrograms hist =
     (\<Union>h \<in> set (drop (length hist - 5) hist). fst ` set (programCounts h))"
  by (auto simp: previousPrograms_def)

lemma known_mono_run: "knownPrograms e \<subseteq> knownPrograms (run e inps)"
  by (auto simp: known_run)

lemma about_new_known:
  "pid \<in> knownPrograms e \<Longrightarrow> anomaliesAbout new_program_detected pid (newProgramRule e pc now) = []"
proof -
  assume k: "pid \<in> knownPrograms e"
  have "\<forall>a \<in> set (newProgramRule e pc now). anomalyProgram a \<noteq> Some pid"
    using k by (auto simp: newProgramRule_def newProgramCheck_def Let_def split: if_splits)
  then show ?thesis
    by (simp add: anomaliesAbout_def)
qed

text \<open>
  Claim C8. In the anomaly list of a snapshot, with \<open>e\<close> the engine before the call and
  \<open>pc\<close> the fetched invocation counts (a map: its keys are distinct), the number of
  \<open>new_program_detected\<close> anomalies about an identifier is 1 when the history of \<open>e\<close> has
  more than 3 entries, the identifier is a key of \<open>pc\<close>, it is a key of none of the last
  5 history entries, and it is not in the known-identifier set of \<open>e\<close>; it is 0 otherwise.
  Every such anomaly has severity low and is about a key of \<open>pc\<close>. An identifier that
  is in the known-identifier set, or that a completed call has observed, gets no
  \<open>new_program_detected\<close> anomaly in any later call, whatever the history holds by then.
\<close>

theorem new_program_anomalies:
  "(takeSnapshot e inp = (Inr snap, e') \<and> countsResult inp = Inr pc \<and> distinct (map fst pc) \<longrightarrow>
      length (anomaliesAbout new_program_detected pid (anomalies snap)) =
        (if 3 < length (history e) \<and> pid \<in> fst ` set pc
            \<and> pid \<notin> (\<Union>h \<in> set (drop (length (history e) - 5) (history e)).
                        fst ` set (programCounts h))
            \<and> pid \<notin> knownPrograms e
         then 1 else 0)
      \<and> (\<forall>a \<in> set (anomaliesOf new_program_detected (anomalies snap)).
            severity a = Low \<and> (\<exists>p \<in> fst ` set pc. anomalyProgram a = Some p)))
   \<and> (pid \<in> knownPrograms e \<and> takeSnapshot (run e later) inp = (Inr snap, e') \<longrightarrow>
        anomaliesAbout new_program_detected pid (anomalies snap) = [])
   \<and> (completed first \<and> pid \<in> fst ` set (programCounts (pointOf first))
        \<and> takeSnapshot (run e (first # later)) inp = (Inr snap, e') \<longrightarrow>
        anomaliesAbout new_program_detected pid (anomalies snap) = [])"
proof (intro conjI impI)
  assume a: "takeSnapshot e inp = (Inr snap, e') \<and> countsResult inp = Inr pc \<and> distinct (map fst pc)"
  then obtain st blocks pc' where
    f: "promiseAll inp = Inr (st, blocks, pc')" and
    an: "anomalies snap =
       detectAnomalies e st (summarizeBlocks blocks) (rankPrograms pc') pc' (nowDetect inp)"
    by (blast elim: snapshot_of_call)
  from f a have pc: "pc' = pc"
    by (simp add: promiseAll_Inr_iff)
  from a have d: "distinct (map fst pc)" by simp
  have "anomaliesAbout new_program_detected pid (anomalies snap) =
      (if 3 < length (history e) \<and> pid \<in> fst ` set pc
       then newProgramCheck (previousPrograms (history e)) (knownPrograms e) pc (nowDetect inp) pid
       else [])"
    by (simp add: an pc anomaliesAbout_detect_new newProgramRule_def about_new_loop [OF d]
        anomaliesAbout_Nil del: map_map)
  then show "length (anomaliesAbout new_program_detected pid (anomalies snap)) =
        (if 3 < length (history e) \<and> pid \<in> fst ` set pc
            \<and> pid \<notin> (\<Union>h \<in> set (drop (length (history e) - 5) (history e)).
                        fst ` set (programCounts h))
            \<and> pid \<notin> knownPrograms e
         then 1 else 0)"
    by (simp add: newProgramCheck_def previousPrograms_eq)
  show "\<forall>a \<in> set (anomaliesOf new_program_detected (anomalies snap)).
            severity a = Low \<and> (\<exists>p \<in> fst ` set pc. anomalyProgram a = Some p)"
    unfolding an pc anomaliesOf_detect_new using new_members by blast
next
  assume a: "pid \<in> knownPrograms e \<and> takeSnapshot (run e later) inp = (Inr snap, e')"
  then obtain st blocks pc' where
    an: "anomalies snap =
       detectAnomalies (run e later) st (summarizeBlocks blocks) (rankPrograms pc') pc' (nowDetect inp)"
    by (blast elim: snapshot_of_call)
  from a have "pid \<in> knownPrograms (run e later)"
    using known_mono_run by blast
  then show "anomaliesAbout new_program_detected pid (anomalies snap) = []"
    by (simp add: an anomaliesAbout_detect_new about_new_known)
next
  assume a: "completed first \<and> pid \<in> fst ` set (programCounts (pointOf first))
        \<and> takeSnapshot (run e (first # later)) inp = (Inr snap, e')"
  then obtain st blocks pc' where
    an: "anomalies snap =
       detectAnomalies (run e (first # later)) st (summarizeBlocks blocks) (rankPrograms pc') pc' (nowDetect inp)"
    by (blast elim: snapshot_of_call)
  from a have "pid \<in> knownPrograms (snd (takeSnapshot e first))"
    by (simp add: known_after_call)
  then have "pid \<in> knownPrograms (run e (first # later))"
    using known_mono_run by auto
  then show "anomaliesAbout new_program_detected pid (anomalies snap) = []"
    by (simp add: an anomaliesAbout_detect_new about_new_known)
qed


theorem new_program_anomalies_witness:
  "takeSnapshot (exampleEngine [[(''X'', 10)], [], [], [], [], []])
       (fulfilledInput 100 [] [(''X'', 1), (''Y'', 1)]) =
     (Inr \<lparr>timestamp = 1000, stats = statsAt 100,
           topPrograms = rankPrograms [(''X'', 1), (''Y'', 1)],
           blockSummary = summarizeBlocks [],
           anomalies = [\<lparr>atype = new_program_detected, severity = Low,
                         message = MsgNewProgram (getProgramLabel ''Y''),
                         data = NewProgramData ''Y'' (Some 1), atimestamp = 1000\<rparr>]\<rparr>,
      snd (takeSnapshot (exampleEngine [[(''X'', 10)], [], [], [], [], []])
             (fulfilledInput 100 [] [(''X'', 1), (''Y'', 1)])))
   \<and> countsResult (fulfilledInput 100 [] [(''X'', 1), (''Y'', 1)]) = Inr [(''X'', 1), (''Y'', 1)]
   \<and> distinct (map fst [(''X'', 1::nat), (''Y'', 1)])
   \<and> ''X'' \<in> knownPrograms (exampleEngine [[(''X'', 10)], [], [], [], [], []])
   \<and> ''X'' \<notin> previousPrograms (history (exampleEngine [[(''X'', 10)], [], [], [], [], []]))
   \<and> length (anomaliesAbout new_program_detected ''Y''
               [\<lparr>atype = new_program_detected, severity = Low,
                 message = MsgNewProgram (getProgramLabel ''Y''),
                 data = NewProgramData ''Y'' (Some 1), atimestamp = 1000\<rparr>]) = 1
   \<and> anomaliesAbout new_program_detected ''X''
         [\<lparr>atype = new_program_detected, severity = Low,
           message = MsgNewProgram (getProgramLabel ''Y''),
           data = NewProgramData ''Y'' (Some 1), atimestamp = 1000\<rparr>] = []"
proof -
  let ?e = "exampleEngine [[(''X'', 10)], [], [], [], [], []]"
  let ?p = "\<lambda>pc. \<lparr>htimestamp = 1000, htps = 100, txCount = 0, hsuccessRate = 0,
                  programCounts = pc\<rparr>"
  have h: "history ?e = [?p [(''X'', 10)], ?p [], ?p [], ?p [], ?p [], ?p []]"
    by (simp add: history_exampleEngine pointOf_fulfilledInput summarizeBlocks_def)
  have k: "knownPrograms ?e = {''X''}"
    by (simp add: known_exampleEngine)
  have b: "baselineTps ?e = Some 100"
    by (simp add: exampleEngine_def takeSnapshot_fulfilled [OF promiseAll_fulfilledInput]
        updateBaseline_def newEngine_def statsAt_def)
  have prev: "previousPrograms [?p [(''X'', 10)], ?p [], ?p [], ?p [], ?p [], ?p []] = {}"
    by (simp add: previousPrograms_def)
  let ?inp = "fulfilledInput 100 [] [(''X'', 1), (''Y'', 1)]"
  let ?snap = "\<lparr>timestamp = 1000, stats = statsAt 100,
           topPrograms = rankPrograms [(''X'', 1), (''Y'', 1)],
           blockSummary = summarizeBlocks [],
           anomalies = [\<lparr>atype = new_program_detected, severity = Low,
                         message = MsgNewProgram (getProgramLabel ''Y''),
                         data = NewProgramData ''Y'' (Some 1), atimestamp = 1000\<rparr>]\<rparr>"
  have call: "takeSnapshot ?e ?inp = (Inr ?snap, snd (takeSnapshot ?e ?inp))"
    unfolding takeSnapshot_fulfilled [OF promiseAll_fulfilledInput]
    by (simp add: h k b prev detectAnomalies_def highFailureRule_def tpsRule_def largeBlockRule_def
        emptyBlockRule_def newProgramRule_def newProgramCheck_def programSurgeRule_def
        summarizeBlocks_def prevCountOf_def statsAt_def fulfilledInput_def Let_def)
  have c: "countsResult ?inp = Inr [(''X'', 1), (''Y'', 1)]"
    by (simp add: fulfilledInput_def)
  have d: "distinct (map fst [(''X'', 1::nat), (''Y'', 1)])" by simp
  have r: "run ?e [] = ?e" by simp
  from new_program_anomalies
         [of ?e ?inp ?snap "snd (takeSnapshot ?e ?inp)" "[(''X'', 1), (''Y'', 1)]" "''Y''"]
       new_program_anomalies
         [of ?e ?inp ?snap "snd (takeSnapshot ?e ?inp)" "[(''X'', 1), (''Y'', 1)]" "''X''" "[]"]
       call c d k prev
  show ?thesis
    by (simp add: h)
qed

subsection \<open>History entries are known\<close>

lemma history_run_subset:
  "set (history (run newEngine inps)) \<subseteq> pointOf ` set (filter completed inps)"
proof -
  have "length (history newEngine) \<le> 100"
    by (simp add: newEngine_def)
  from history_run [OF this, of inps]
  have "history (run newEngine inps) =
     drop (length (filter completed inps) - 100) (map pointOf (filter completed inps))"
    by (simp add: newEngine_def)
  moreover have "set (drop (length (filter completed inps) - 100)
                        (map pointOf (filter completed inps)))
                 \<subseteq> set (map pointOf (filter completed inps))"
    by (rule set_drop_subset)
  ultimately show ?thesis by simp
qed

lemma history_known:
  assumes "h \<in> set (history (run newEngine inps))"
  shows "fst ` set (programCounts h) \<subseteq> knownPrograms (run newEngine inps)"
proof -
  from assms history_run_subset obtain i where
    i: "i \<in> set (filter completed inps)" "h = pointOf i"
    by blast
  then show ?thesis
    unfolding known_run by blast
qed

lemma previousPrograms_subset:
  "previousPrograms hist \<subseteq> (\<Union>h \<in> set hist. fst ` set (programCounts h))"
  unfolding previousPrograms_eq using set_drop_subset by fastforce

text \<open>
  Claim C10. In every engine reached from a new engine by a sequence of calls, the keys of
  every history entry's invocation counts are in the known-identifier set. So the
  identifiers of the last 5 history entries are known, an identifier that is not known is
  in none of them, and the check of \<open>new_program_detected\<close> gives the same result when
  its history-absence conjunct is left out (the empty set in place of the identifiers of
  the last 5 entries).
\<close>

theorem history_identifiers_known:
  "(\<forall>h \<in> set (history (run newEngine inps)).
       fst ` set (programCounts h) \<subseteq> knownPrograms (run newEngine inps))
   \<and> previousPrograms (history (run newEngine inps)) \<subseteq> knownPrograms (run newEngine inps)
   \<and> (pid \<notin> knownPrograms (run newEngine inps) \<longrightarrow>
        pid \<notin> previousPrograms (history (run newEngine inps)))
   \<and> newProgramCheck (previousPrograms (history (run newEngine inps)))
        (knownPrograms (run newEngine inps)) pc now pid
      = newProgramCheck {} (knownPrograms (run newEngine inps)) pc now pid"
proof -
  let ?e = "run newEngine inps"
  have inv: "\<forall>h \<in> set (history ?e). fst ` set (programCounts h) \<subseteq> knownPrograms ?e"
    using history_known by blast
  have sub: "previousPrograms (history ?e) \<subseteq> knownPrograms ?e"
    using previousPrograms_subset [of "history ?e"] inv by blast
  have "newProgramCheck (previousPrograms (history ?e)) (knownPrograms ?e) pc now pid
      = newProgramCheck {} (knownPrograms ?e) pc now pid"
    using sub by (auto simp: newProgramCheck_def)
  with inv sub show ?thesis by blast
qed

theorem history_identifiers_known_witness:
  "history (run newEngine [fulfilledInput 100 [] [(''X'', 10)]]) =
     [\<lparr>htimestamp = 1000, htps = 100, txCount = 0, hsuccessRate = 0,
       programCounts = [(''X'', 10)]\<rparr>]
   \<and> ''X'' \<in> knownPrograms (run newEngine [fulfilledInput 100 [] [(''X'', 10)]])
   \<and> ''Y'' \<notin> knownPrograms (run newEngine [fulfilledInput 100 [] [(''X'', 10)]])
   \<and> ''Y'' \<notin> previousPrograms (history (run newEngine [fulfilledInput 100 [] [(''X'', 10)]]))"
proof -
  have h: "history (run newEngine [fulfilledInput 100 [] [(''X'', 10)]]) =
     [\<lparr>htimestamp = 1000, htps = 100, txCount = 0, hsuccessRate = 0,
       programCounts = [(''X'', 10)]\<rparr>]"
    using history_exampleEngine [of "[[(''X'', 10)]]"]
    by (simp add: exampleEngine_def pointOf_fulfilledInput summarizeBlocks_def)
  have k: "''Y'' \<notin> knownPrograms (run newEngine [fulfilledInput 100 [] [(''X'', 10)]])"
    using known_exampleEngine [of "[[(''X'', 10)]]"]
    by (simp add: exampleEngine_def)
  from history_identifiers_known [of "[fulfilledInput 100 [] [(''X'', 10)]]" "''Y''"] h k
  show ?thesis by simp
qed

section \<open>Properties of the history accessor\<close>

lemma lookupObj_append: "r < length st \<Longrightarrow> lookupObj (st @ xs) r = lookupObj st r"
  by (simp add: lookupObj_def nth_append)

lemma lookupObj_Some_less: "lookupObj st r = Some ob \<Longrightarrow> r < length st"
  by (simp add: lookupObj_def split: if_splits)

lemma readPoint_append: "readPoint st r = Some p \<Longrightarrow> readPoint (st @ xs) r = Some p"
proof -
  assume rp: "readPoint st r = Some p"
  then obtain ts t n sr m where o: "lookupObj st r = Some (PointObj ts t n sr m)"
    by (auto simp: readPoint_def split: option.splits JsObject.splits)
  with rp obtain pc where m: "lookupObj st m = Some (MapObj pc)"
    by (auto simp: readPoint_def split: option.splits JsObject.splits)
  from o m have "lookupObj (st @ xs) r = lookupObj st r" "lookupObj (st @ xs) m = lookupObj st m"
    by (simp_all add: lookupObj_append lookupObj_Some_less)
  with rp o m show ?thesis
    by (simp add: readPoint_def)
qed

lemma those_map_Some:
  "those (map f xs) = Some ys \<Longrightarrow> \<forall>x \<in> set xs. g x = f x \<Longrightarrow> those (map g xs) = Some ys"
proof -
  assume "\<forall>x \<in> set xs. g x = f x"
  then have "map g xs = map f xs" by (intro map_cong) simp_all
  moreover assume "those (map f xs) = Some ys"
  ultimately show ?thesis by (simp only:)
qed

lemma those_Some_all: "those os = Some ys \<Longrightarrow> \<forall>ob \<in> set os. ob \<noteq> None"
  by (induction os arbitrary: ys) (auto split: option.splits)

lemma readHistory_slots:
  "readHistory st h = Some pts \<longleftrightarrow>
     (\<exists>slots. lookupObj st h = Some (ArrayObj slots) \<and> those (map (readPoint st) slots) = Some pts)"
  by (auto simp: readHistory_def split: option.splits JsObject.splits)

lemma those_readPoint_append:
  assumes "those (map (readPoint st) slots) = Some pts"
  shows "those (map (readPoint (st @ xs)) slots) = Some pts"
proof (rule those_map_Some [OF assms], rule ballI)
  fix r assume "r \<in> set slots"
  with those_Some_all [OF assms] obtain p where "readPoint st r = Some p"
    by fastforce
  then show "readPoint (st @ xs) r = readPoint st r"
    by (simp add: readPoint_append)
qed

lemma readHistory_append:
  assumes "readHistory st h = Some pts"
  shows "readHistory (st @ xs) h = Some pts"
proof -
  from assms obtain slots where
    s: "lookupObj st h = Some (ArrayObj slots)" "those (map (readPoint st) slots) = Some pts"
    by (auto simp: readHistory_slots)
  from s(1) have "lookupObj (st @ xs) h = Some (ArrayObj slots)"
    by (simp add: lookupObj_append lookupObj_Some_less)
  with those_readPoint_append [OF s(2)] show ?thesis
    by (auto simp: readHistory_slots)
qed

lemma array_write_fresh:
  "callerWrite (st @ [ArrayObj slots]) (length st) (ArraySlots slots') = st @ [ArrayObj slots']"
  by (simp add: lookupObj_def)

lemma array_writes_fresh:
  "\<forall>w \<in> set ws. isArrayWrite w \<Longrightarrow>
     \<exists>slots'. callerWrites (st @ [ArrayObj slots]) (length st) ws = st @ [ArrayObj slots']"
proof (induction ws arbitrary: slots)
  case Nil
  then show ?case by (simp add: callerWrites_def)
next
  case (Cons w ws)
  then obtain s1 where w: "w = ArraySlots s1"
    by (cases w) auto
  from Cons.prems have "\<forall>w \<in> set ws. isArrayWrite w" by simp
  from Cons.IH [OF this, of s1] w show ?case
    by (simp add: callerWrites_def array_write_fresh del: callerWrite.simps)
qed

text \<open>
  Claim C9, as amended. Where the engine's history array holds the entries \<open>pts\<close>,
  \<open>getHistory\<close> returns a new array, different from the engine's, whose slots hold the
  references the engine's array holds: the same entry objects, in the same order. The call
  changes no object of the store, so the engine's history is as before; and no sequence
  of writes to the returned array's own slots changes the engine's history.
\<close>

theorem getHistory_copy:
  assumes "readHistory st h = Some pts"
  shows "\<exists>ret st'. getHistory st h = Some (ret, st')
           \<and> ret \<noteq> h \<and> lookupObj st ret = None
           \<and> take (length st) st' = st
           \<and> lookupObj st' ret = lookupObj st h
           \<and> readHistory st' ret = Some pts
           \<and> readHistory st' h = Some pts
           \<and> (\<forall>ws. (\<forall>w \<in> set ws. isArrayWrite w) \<longrightarrow>
                 readHistory (callerWrites st' ret ws) h = Some pts)"
proof -
  from assms obtain slots where
    s: "lookupObj st h = Some (ArrayObj slots)" "those (map (readPoint st) slots) = Some pts"
    by (auto simp: readHistory_slots)
  let ?st' = "st @ [ArrayObj slots]"
  have g: "getHistory st h = Some (length st, ?st')"
    by (simp add: getHistory_def s)
  have fresh: "length st \<noteq> h" "lookupObj st (length st) = None"
    using lookupObj_Some_less [OF s(1)] by (simp_all add: lookupObj_def)
  have "lookupObj ?st' (length st) = Some (ArrayObj slots)"
    by (simp add: lookupObj_def)
  with s(1) have same: "lookupObj ?st' (length st) = lookupObj st h"
    by simp
  have ret: "readHistory ?st' (length st) = Some pts"
    using those_readPoint_append [OF s(2), of "[ArrayObj slots]"]
    by (simp add: readHistory_slots lookupObj_def)
  have own: "readHistory ?st' h = Some pts"
    using assms by (rule readHistory_append)
  have writes: "readHistory (callerWrites ?st' (length st) ws) h = Some pts"
    if "\<forall>w \<in> set ws. isArrayWrite w" for ws
  proof -
    from array_writes_fresh [OF that] obtain slots' where
      "callerWrites ?st' (length st) ws = st @ [ArrayObj slots']" by blast
    with readHistory_append [OF assms] show ?thesis by simp
  qed
  from g fresh same ret own writes show ?thesis by simp
qed

theorem getHistory_copy_witness:
  "readHistory exampleStore 2 =
     Some [\<lparr>htimestamp = 1000, htps = 50, txCount = 7, hsuccessRate = 100,
            programCounts = [(''A'', 1)]\<rparr>]
   \<and> getHistory exampleStore 2 = Some (3, exampleStore @ [ArrayObj [1]])
   \<and> readHistory (exampleStore @ [ArrayObj [1]]) 3 = readHistory exampleStore 2
   \<and> isArrayWrite (ArraySlots [])
   \<and> readHistory (callerWrites (exampleStore @ [ArrayObj [1]]) 3 [ArraySlots []]) 2 =
       readHistory exampleStore 2"
proof -
  have r: "readHistory exampleStore 2 =
     Some [\<lparr>htimestamp = 1000, htps = 50, txCount = 7, hsuccessRate = 100,
            programCounts = [(''A'', 1)]\<rparr>]"
    by (simp add: readHistory_def readPoint_def lookupObj_def exampleStore_def)
  have g: "getHistory exampleStore 2 = Some (3, exampleStore @ [ArrayObj [1]])"
    by (simp add: getHistory_def lookupObj_def exampleStore_def)
  from getHistory_copy [OF r] g r show ?thesis
    by (auto simp del: callerWrite.simps)
qed

text \<open>
  The claim as stated fails: the returned array shares its elements with the engine's
  history, so a write to an element's map, or to a field of an element, through the
  returned array changes the engine's history.
\<close>

theorem getHistory_shares_entries_counterexample:
  "getHistory exampleStore 2 = Some (3, exampleStore @ [ArrayObj [1]])
   \<and> readHistory exampleStore 2 =
       Some [\<lparr>htimestamp = 1000, htps = 50, txCount = 7, hsuccessRate = 100,
              programCounts = [(''A'', 1)]\<rparr>]
   \<and> readHistory (callerWrite (exampleStore @ [ArrayObj [1]]) 3 (CountsSet 0 ''A'' 99)) 2 =
       Some [\<lparr>htimestamp = 1000, htps = 50, txCount = 7, hsuccessRate = 100,
              programCounts = [(''A'', 99)]\<rparr>]
   \<and> readHistory (callerWrite (exampleStore @ [ArrayObj [1]]) 3 (SetTps 0 0)) 2 =
       Some [\<lparr>htimestamp = 1000, htps = 0, txCount = 7, hsuccessRate = 100,
              programCounts = [(''A'', 1)]\<rparr>]
   \<and> readHistory (callerWrite (exampleStore @ [ArrayObj [1]]) 3 (CountsSet 0 ''A'' 99)) 2
       \<noteq> readHistory exampleStore 2"
  by (simp add: getHistory_def readHistory_def readPoint_def lookupObj_def exampleStore_def)

end
